theory Spec2Isabelle
  imports Complex_Main "HOL-Library.Product_Lexorder"
begin

section \<open>Data model of \<open>slice_sprites.py\<close>\<close>

text \<open>
  A pixel is the 4-tuple \<open>(r, g, b, a)\<close> that \<open>getpixel\<close> returns. A region is the
  5-tuple \<open>(min_x, min_y, max_x + 1, max_y + 1, region_pixels)\<close> that
  \<open>find_sprite_regions\<close> appends. Coordinates are Python integers (a neighbour of a
  border pixel has coordinate \<open>-1\<close>); the width and the height of an image are naturals.
\<close>

type_synonym rgba = "int \<times> int \<times> int \<times> int"

type_synonym region = "int \<times> int \<times> int \<times> int \<times> int"

record image =
  size_w :: nat
  size_h :: nat
  pixels :: "int \<times> int \<Rightarrow> rgba"

section \<open>The pixel classifier\<close>

text \<open>
  \<open>avg = (r + g + b) / 3\<close> is Python's true division; it is modelled over the rationals.
\<close>

definition is_background_pixel :: "int \<Rightarrow> int \<Rightarrow> int \<Rightarrow> int \<Rightarrow> bool" where
  "is_background_pixel r g b threshold =
     (let avg = (of_int (r + g + b) :: rat) / 3;
          spread = max r (max g b) - min r (min g b)
      in avg > 225 \<and> spread < threshold)"

text \<open>The classifier as the specification words it (\<open>is_background\<close>, threshold 12).\<close>

definition spec_is_background :: "int \<Rightarrow> int \<Rightarrow> int \<Rightarrow> bool" where
  "spec_is_background r g b =
     ((of_int r + of_int g + of_int b :: rat) / 3 > 225 \<and> Max {r, g, b} - Min {r, g, b} < 12)"

section \<open>The post-merge artifact filter and the crop box\<close>

text \<open>Line 195: \<open>regions = [r for r in regions if r[4] > 500]\<close>.\<close>

definition pixel_count :: "region \<Rightarrow> int" where
  "pixel_count r = (case r of (x1, y1, x2, y2, p) \<Rightarrow> p)"

definition artifact_filter :: "region list \<Rightarrow> region list" where
  "artifact_filter regions = filter (\<lambda>r. pixel_count r > 500) regions"

text \<open>Lines 206--210: the padding of 2 pixels and the clamp to the sheet.\<close>

definition crop_box :: "nat \<Rightarrow> nat \<Rightarrow> region \<Rightarrow> int \<times> int \<times> int \<times> int" where
  "crop_box w h r =
     (case r of (x1, y1, x2, y2, p) \<Rightarrow>
        (let pad = 2;
             x1' = max 0 (x1 - pad);
             y1' = max 0 (y1 - pad);
             x2' = min (int w) (x2 + pad);
             y2' = min (int h) (y2 + pad)
         in (x1', y1', x2', y2')))"

definition box_width :: "int \<times> int \<times> int \<times> int \<Rightarrow> int" where
  "box_width b = (case b of (x1, y1, x2, y2) \<Rightarrow> x2 - x1)"

definition box_height :: "int \<times> int \<times> int \<times> int \<Rightarrow> int" where
  "box_height b = (case b of (x1, y1, x2, y2) \<Rightarrow> y2 - y1)"

definition well_formed :: "nat \<Rightarrow> nat \<Rightarrow> region \<Rightarrow> bool" where
  "well_formed w h r =
     (case r of (x1, y1, x2, y2, p) \<Rightarrow>
        0 \<le> x1 \<and> x1 < x2 \<and> x2 \<le> int w \<and> 0 \<le> y1 \<and> y1 < y2 \<and> y2 \<le> int h)"

section \<open>The region merger\<close>

text \<open>
  \<open>merge_close_regions\<close> (lines 101--133). One pass of the \<open>while\<close> loop is the pair of
  nested \<open>for\<close> loops over indices with the set \<open>used\<close>; the inner loop carries the
  accumulated box \<open>(x1, y1, x2, y2, p1)\<close>, the set and the flag \<open>merged\<close>.
\<close>

definition boxes_close :: "int \<Rightarrow> region \<Rightarrow> region \<Rightarrow> bool" where
  "boxes_close gap a b =
     (case a of (x1, y1, x2, y2, p1) \<Rightarrow> case b of (bx1, by1, bx2, by2, p2) \<Rightarrow>
        x1 - gap \<le> bx2 \<and> x2 + gap \<ge> bx1 \<and> y1 - gap \<le> by2 \<and> y2 + gap \<ge> by1)"

definition absorb :: "region \<Rightarrow> region \<Rightarrow> region" where
  "absorb a b =
     (case a of (x1, y1, x2, y2, p1) \<Rightarrow> case b of (bx1, by1, bx2, by2, p2) \<Rightarrow>
        (min x1 bx1, min y1 by1, max x2 bx2, max y2 by2, p1 + p2))"

definition inner_step ::
  "region list \<Rightarrow> int \<Rightarrow> nat \<Rightarrow> region \<times> nat set \<times> bool \<Rightarrow> region \<times> nat set \<times> bool" where
  "inner_step regions gap j s =
     (case s of (acc, used, merged) \<Rightarrow>
        if j \<in> used then s
        else if boxes_close gap acc (regions ! j)
          then (absorb acc (regions ! j), insert j used, True)
          else s)"

definition outer_step ::
  "region list \<Rightarrow> int \<Rightarrow> nat \<Rightarrow> region list \<times> nat set \<times> bool \<Rightarrow> region list \<times> nat set \<times> bool" where
  "outer_step regions gap i s =
     (case s of (new_regions, used, merged) \<Rightarrow>
        if i \<in> used then s
        else (case fold (inner_step regions gap) [i + 1..<length regions] (regions ! i, used, merged) of
                (acc, used', merged') \<Rightarrow> (new_regions @ [acc], insert i used', merged')))"

definition merge_pass :: "region list \<Rightarrow> int \<Rightarrow> region list \<times> bool" where
  "merge_pass regions gap =
     (case fold (outer_step regions gap) [0..<length regions] ([], {}, False) of
        (new_regions, used, merged) \<Rightarrow> (new_regions, merged))"

definition total_pixels :: "region list \<Rightarrow> int" where
  "total_pixels rs = sum_list (map pixel_count rs)"


lemma pixel_count_absorb: "pixel_count (absorb a b) = pixel_count a + pixel_count b"
  by (simp add: pixel_count_def absorb_def split: prod.splits)

lemma inner_fold:
  assumes "fold (inner_step rs gap) js (acc0, used0, m0) = (acc, used, m)"
    and "distinct js" and "finite used0"
  shows "used0 \<subseteq> used \<and> used \<subseteq> used0 \<union> set js \<and>
         pixel_count acc = pixel_count acc0 + (\<Sum>j\<in>used - used0. pixel_count (rs ! j)) \<and>
         m = (m0 \<or> used \<noteq> used0) \<and>
         (used = used0 \<longrightarrow> acc = acc0 \<and> (\<forall>j\<in>set js - used0. \<not> boxes_close gap acc0 (rs ! j)))"
  using assms
proof (induction js arbitrary: acc used m rule: rev_induct)
  case Nil
  then show ?case by simp
next
  case (snoc j js)
  obtain acc1 used1 m1 where s1: "fold (inner_step rs gap) js (acc0, used0, m0) = (acc1, used1, m1)"
    by (metis prod_cases3)
  from snoc.prems have dj: "distinct js" and jn: "j \<notin> set js" by simp_all
  note ih = snoc.IH [OF s1 dj snoc.prems(3)]
  from snoc.prems(1) s1 have step: "inner_step rs gap j (acc1, used1, m1) = (acc, used, m)"
    by simp
  have fin: "finite (used1 - used0)"
    using ih by (meson finite_Diff2 finite_UnI finite_set finite_subset snoc.prems(3))
  show ?case
  proof (cases "j \<notin> used1 \<and> boxes_close gap acc1 (rs ! j)")
    case True
    with step have eq: "acc = absorb acc1 (rs ! j)" "used = insert j used1" "m = True"
      by (simp_all add: inner_step_def)
    from True ih have j0: "j \<notin> used0" by blast
    have d: "used - used0 = insert j (used1 - used0)"
      using eq(2) j0 by blast
    have jd: "j \<notin> used1 - used0" using True by simp
    have "pixel_count acc = pixel_count acc0 + (\<Sum>j\<in>used - used0. pixel_count (rs ! j))"
      unfolding d eq(1) pixel_count_absorb using ih fin jd by simp
    moreover have "used \<noteq> used0" using eq(2) j0 by blast
    moreover have "used0 \<subseteq> used" "used \<subseteq> used0 \<union> set (js @ [j])"
      using ih eq(2) by auto
    ultimately show ?thesis using eq(3) by simp
  next
    case False
    with step have eq: "acc = acc1" "used = used1" "m = m1"
      by (auto simp: inner_step_def split: if_splits)
    have "used1 = used0 \<Longrightarrow> j \<notin> used0 \<Longrightarrow> \<not> boxes_close gap acc0 (rs ! j)"
      using False ih by auto
    then show ?thesis using ih unfolding eq by auto
  qed
qed


lemma outer_fold:
  assumes "fold (outer_step rs gap) [0..<k] ([], {}, False) = (new, used, m)"
    and "k \<le> length rs"
  shows "{0..<k} \<subseteq> used \<and> used \<subseteq> {0..<length rs} \<and>
         total_pixels new = (\<Sum>j\<in>used. pixel_count (rs ! j)) \<and>
         length new \<le> card used \<and> (m \<longleftrightarrow> length new < card used) \<and>
         (\<not> m \<longrightarrow> used = {0..<k} \<and> new = take k rs \<and>
            (\<forall>i<k. \<forall>j. i < j \<and> j < length rs \<longrightarrow> \<not> boxes_close gap (rs ! i) (rs ! j)))"
  using assms
proof (induction k arbitrary: new used m)
  case 0
  then show ?case by (simp add: total_pixels_def)
next
  case (Suc k)
  obtain new1 used1 m1 where
    s1: "fold (outer_step rs gap) [0..<k] ([], {}, False) = (new1, used1, m1)"
    by (metis prod_cases3)
  from Suc.prems have kl: "k < length rs" by simp
  then have kl': "k \<le> length rs" by simp
  note ih = Suc.IH [OF s1 kl']
  note ih1 = ih [THEN conjunct1]
  note ih2 = ih [THEN conjunct2, THEN conjunct1]
  note ih3 = ih [THEN conjunct2, THEN conjunct2, THEN conjunct1]
  note ih4 = ih [THEN conjunct2, THEN conjunct2, THEN conjunct2, THEN conjunct1]
  note ih5 = ih [THEN conjunct2, THEN conjunct2, THEN conjunct2, THEN conjunct2, THEN conjunct1]
  note ih6 = ih [THEN conjunct2, THEN conjunct2, THEN conjunct2, THEN conjunct2, THEN conjunct2, rule_format]
  from Suc.prems(1) s1 have step: "outer_step rs gap k (new1, used1, m1) = (new, used, m)"
    by simp
  have fin1: "finite used1" using ih2 by (meson finite_atLeastLessThan finite_subset)
  show ?case
  proof (cases "k \<in> used1")
    case True
    with step have eq: "new = new1" "used = used1" "m = m1"
      by (simp_all add: outer_step_def)
    have "m1"
    proof (rule ccontr)
      assume "\<not> m1"
      from ih6 [OF this] have "used1 = {0..<k}" by simp
      with True show False by simp
    qed
    moreover have "{0..<Suc k} \<subseteq> used1" using True ih1
      by (auto simp: less_Suc_eq)
    ultimately show ?thesis using ih2 ih3 ih4 ih5 unfolding eq by simp
  next
    case False
    obtain acc used' m' where
      inn: "fold (inner_step rs gap) [k + 1..<length rs] (rs ! k, used1, m1) = (acc, used', m')"
      by (metis prod_cases3)
    with step False have eq: "new = new1 @ [acc]" "used = insert k used'" "m = m'"
      by (simp_all add: outer_step_def)
    note inv = inner_fold [OF inn distinct_upt fin1]
    note iv1 = inv [THEN conjunct1]
    note iv2 = inv [THEN conjunct2, THEN conjunct1]
    note iv3 = inv [THEN conjunct2, THEN conjunct2, THEN conjunct1]
    note iv4 = inv [THEN conjunct2, THEN conjunct2, THEN conjunct2, THEN conjunct1]
    note iv5 = inv [THEN conjunct2, THEN conjunct2, THEN conjunct2, THEN conjunct2, rule_format]
    have fin': "finite used'"
      using iv2 fin1 by (meson finite_UnI finite_set finite_subset)
    have kn': "k \<notin> used'" using iv2 False by auto
    have sub1: "{0..<Suc k} \<subseteq> used"
      using ih1 iv1 unfolding eq by (auto simp: less_Suc_eq)
    have sub2: "used \<subseteq> {0..<length rs}"
      using ih2 iv2 kl unfolding eq by auto
    have split: "(\<Sum>j\<in>used'. pixel_count (rs ! j)) =
        (\<Sum>j\<in>used1. pixel_count (rs ! j)) + (\<Sum>j\<in>used' - used1. pixel_count (rs ! j))"
      using sum.subset_diff [OF iv1 fin', of "\<lambda>j. pixel_count (rs ! j)"] by simp
    have tot: "total_pixels new = (\<Sum>j\<in>used. pixel_count (rs ! j))"
      using ih3 iv3 split kn' fin' unfolding eq by (simp add: total_pixels_def)
    have cle: "card used1 \<le> card used'" using iv1 fin' by (simp add: card_mono)
    have cst: "used' \<noteq> used1 \<Longrightarrow> card used1 < card used'"
      using iv1 fin' by (simp add: psubset_card_mono psubsetI)
    have cu: "card (insert k used') = Suc (card used')" using kn' fin' by simp
    have len: "length new \<le> card used" using ih4 cle unfolding eq cu by simp
    have mm: "m \<longleftrightarrow> length new < card used"
    proof (cases "used' = used1")
      case True
      then show ?thesis using ih5 iv4 unfolding eq cu by simp
    next
      case False
      from cst [OF False] ih4 have "length new1 < card used'" by simp
      then show ?thesis using False iv4 unfolding eq cu by simp
    qed
    have nm: "used = {0..<Suc k} \<and> new = take (Suc k) rs \<and>
            (\<forall>i<Suc k. \<forall>j. i < j \<and> j < length rs \<longrightarrow> \<not> boxes_close gap (rs ! i) (rs ! j))"
      if "\<not> m"
    proof -
      from that iv4 eq(3) have a: "\<not> m1" "used' = used1" by simp_all
      note b = ih6 [OF a(1)]
      have b1: "used1 = {0..<k}" and b2: "new1 = take k rs" using b by simp_all
      have b3: "\<not> boxes_close gap (rs ! i) (rs ! j)" if "i < k" "i < j" "j < length rs" for i j
        using b that by blast
      note c = iv5 [OF a(2)]
      have c1: "acc = rs ! k" using c by simp
      have c2: "\<not> boxes_close gap (rs ! k) (rs ! j)" if "k < j" "j < length rs" for j
      proof -
        have "j \<in> set [k + 1..<length rs] - used1" using that b1 by simp
        with c show ?thesis by blast
      qed
      have "used = {0..<Suc k}" unfolding eq a b1 by auto
      moreover have "new = take (Suc k) rs"
        unfolding eq b2 c1 by (simp add: take_Suc_conv_app_nth kl)
      moreover have "\<not> boxes_close gap (rs ! i) (rs ! j)"
        if "i < Suc k" "i < j" "j < length rs" for i j
      proof (cases "i = k")
        case True
        with that c2 show ?thesis by simp
      next
        case False
        with that have "i < k" by simp
        from b3 [OF this that(2,3)] show ?thesis .
      qed
      ultimately show ?thesis by blast
    qed
    show ?thesis
      apply (intro conjI impI)
      apply (rule sub1)
      apply (rule sub2)
      apply (rule tot)
      apply (rule len)
      apply (rule mm)
      using nm apply blast
      using nm apply blast
      using nm apply blast
      done
  qed
qed

lemma merge_pass_facts:
  assumes "merge_pass rs gap = (new, m)"
  shows "total_pixels new = total_pixels rs"
    and "m \<Longrightarrow> length new < length rs"
    and "\<not> m \<Longrightarrow> new = rs"
    and "\<not> m \<Longrightarrow> i < j \<Longrightarrow> j < length rs \<Longrightarrow> \<not> boxes_close gap (rs ! i) (rs ! j)"
proof -
  obtain used where
    f: "fold (outer_step rs gap) [0..<length rs] ([], {}, False) = (new, used, m)"
    using assms by (auto simp: merge_pass_def split: prod.splits)
  note o = outer_fold [OF f order_refl]
  note o1 = o [THEN conjunct1]
  note o2 = o [THEN conjunct2, THEN conjunct1]
  note o3 = o [THEN conjunct2, THEN conjunct2, THEN conjunct1]
  note o5 = o [THEN conjunct2, THEN conjunct2, THEN conjunct2, THEN conjunct2, THEN conjunct1]
  note o6 = o [THEN conjunct2, THEN conjunct2, THEN conjunct2, THEN conjunct2, THEN conjunct2, rule_format]
  have u: "used = {0..<length rs}" by (rule subset_antisym [OF o2 o1])
  have "(\<Sum>j\<in>{0..<length rs}. pixel_count (rs ! j)) = total_pixels rs"
    unfolding total_pixels_def by (simp add: sum_list_sum_nth atLeast0LessThan)
  with o3 u show "total_pixels new = total_pixels rs" by simp
  from o5 u show "m \<Longrightarrow> length new < length rs" by simp
  from o6 show "\<not> m \<Longrightarrow> new = rs" by simp
  show "\<not> boxes_close gap (rs ! i) (rs ! j)" if "\<not> m" "i < j" "j < length rs"
  proof -
    from that have "i < length rs" by simp
    with o6 [OF that(1)] that(2,3) show ?thesis by blast
  qed
qed

function merge_loop :: "region list \<Rightarrow> int \<Rightarrow> region list" where
  "merge_loop regions gap =
     (case merge_pass regions gap of
        (new_regions, merged) \<Rightarrow> if merged then merge_loop new_regions gap else new_regions)"
  by pat_completeness auto
termination
proof (relation "measure (\<lambda>(regions, gap). length regions)")
  show "wf (measure (\<lambda>(regions, gap). length regions))" by simp
next
  fix regions :: "region list" and gap :: int and x y
  assume "(x, y) = merge_pass regions gap" and y
  then have "merge_pass regions gap = (x, True)" by simp
  from merge_pass_facts(2) [OF this]
  show "((x, gap), regions, gap) \<in> measure (\<lambda>(regions, gap). length regions)"
    by simp
qed

declare merge_loop.simps [simp del]

definition merge_close_regions :: "region list \<Rightarrow> int \<Rightarrow> region list" where
  "merge_close_regions regions gap = (if regions = [] then regions else merge_loop regions gap)"

lemma merge_loop_total: "total_pixels (merge_loop rs gap) = total_pixels rs"
proof (induction rs gap rule: merge_loop.induct)
  case (1 regions gap)
  obtain new m where p: "merge_pass regions gap = (new, m)" by (metis surj_pair)
  show ?case
  proof (cases m)
    case True
    then have "merge_loop regions gap = merge_loop new gap"
      using p by (subst merge_loop.simps) simp
    moreover have "total_pixels (merge_loop new gap) = total_pixels new"
      using "1.IH" [OF p [symmetric]] True by simp
    ultimately show ?thesis using merge_pass_facts(1) [OF p] by simp
  next
    case False
    then have "merge_loop regions gap = new"
      using p by (subst merge_loop.simps) simp
    then show ?thesis using merge_pass_facts(1) [OF p] by simp
  qed
qed

lemma merge_loop_stable: "merge_pass (merge_loop rs gap) gap = (merge_loop rs gap, False)"
proof (induction rs gap rule: merge_loop.induct)
  case (1 regions gap)
  obtain new m where p: "merge_pass regions gap = (new, m)" by (metis surj_pair)
  show ?case
  proof (cases m)
    case True
    then have "merge_loop regions gap = merge_loop new gap"
      using p by (subst merge_loop.simps) simp
    then show ?thesis using "1.IH" [OF p [symmetric]] True by simp
  next
    case False
    then have e: "merge_loop regions gap = new"
      using p by (subst merge_loop.simps) simp
    from False p have "merge_pass regions gap = (new, False)" by simp
    moreover from merge_pass_facts(3) [OF this] have "new = regions" by simp
    ultimately show ?thesis unfolding e by simp
  qed
qed

lemma boxes_close_sym: "boxes_close gap a b = boxes_close gap b a"
  by (auto simp: boxes_close_def split: prod.splits)


definition inside :: "region \<Rightarrow> region \<Rightarrow> bool" where
  "inside a b =
     (case a of (x1, y1, x2, y2, p1) \<Rightarrow> case b of (bx1, by1, bx2, by2, p2) \<Rightarrow>
        bx1 \<le> x1 \<and> by1 \<le> y1 \<and> x2 \<le> bx2 \<and> y2 \<le> by2)"

definition grouping :: "region list \<Rightarrow> region list \<Rightarrow> (nat \<Rightarrow> nat) \<Rightarrow> bool" where
  "grouping rs out f =
     ((\<forall>i<length rs. f i < length out \<and> inside (rs ! i) (out ! f i)) \<and>
      (\<forall>m<length out.
         pixel_count (out ! m) = (\<Sum>i\<in>{i. i < length rs \<and> f i = m}. pixel_count (rs ! i))))"

lemma inside_refl: "inside a a"
  by (simp add: inside_def split: prod.splits)

lemma inside_trans: "inside a b \<Longrightarrow> inside b c \<Longrightarrow> inside a c"
  by (auto simp: inside_def split: prod.splits)

lemma inside_absorb: "inside a (absorb a b)" "inside b (absorb a b)"
  by (auto simp: inside_def absorb_def split: prod.splits)

lemma inner_fold_inside:
  assumes "fold (inner_step rs gap) js (acc0, used0, m0) = (acc, used, m)"
  shows "inside acc0 acc \<and> (\<forall>j\<in>used - used0. inside (rs ! j) acc)"
  using assms
proof (induction js arbitrary: acc used m rule: rev_induct)
  case Nil
  then show ?case by (simp add: inside_refl)
next
  case (snoc j js)
  obtain acc1 used1 m1 where s1: "fold (inner_step rs gap) js (acc0, used0, m0) = (acc1, used1, m1)"
    by (metis prod_cases3)
  note ih = snoc.IH [OF s1]
  from snoc.prems(1) s1 have step: "inner_step rs gap j (acc1, used1, m1) = (acc, used, m)"
    by simp
  show ?case
  proof (cases "j \<notin> used1 \<and> boxes_close gap acc1 (rs ! j)")
    case True
    with step have eq: "acc = absorb acc1 (rs ! j)" "used = insert j used1"
      by (simp_all add: inner_step_def)
    have "inside acc0 acc"
      unfolding eq using ih inside_trans inside_absorb(1) by blast
    moreover have "inside (rs ! i) acc" if "i \<in> used - used0" for i
    proof (cases "i = j")
      case True
      then show ?thesis unfolding eq by (simp add: inside_absorb(2))
    next
      case False
      with that have "i \<in> used1 - used0" unfolding eq by simp
      with ih have "inside (rs ! i) acc1" by blast
      then show ?thesis unfolding eq using inside_trans inside_absorb(1) by blast
    qed
    ultimately show ?thesis by blast
  next
    case False
    with step have eq: "acc = acc1" "used = used1"
      by (auto simp: inner_step_def split: if_splits)
    show ?thesis using ih unfolding eq .
  qed
qed

lemma outer_fold_groups:
  assumes "fold (outer_step rs gap) [0..<k] ([], {}, False) = (new, used, m)"
    and "k \<le> length rs"
  shows "\<exists>f. (\<forall>i\<in>used. f i < length new \<and> inside (rs ! i) (new ! f i)) \<and>
             (\<forall>n<length new.
                pixel_count (new ! n) = (\<Sum>i\<in>{i\<in>used. f i = n}. pixel_count (rs ! i)))"
  using assms
proof (induction k arbitrary: new used m)
  case 0
  then show ?case by simp
next
  case (Suc k)
  obtain new1 used1 m1 where
    s1: "fold (outer_step rs gap) [0..<k] ([], {}, False) = (new1, used1, m1)"
    by (metis prod_cases3)
  from Suc.prems have kl: "k < length rs" by simp
  then have kl': "k \<le> length rs" by simp
  from Suc.IH [OF s1 kl'] obtain f where
    f1: "\<And>i. i \<in> used1 \<Longrightarrow> f i < length new1"
    and f2: "\<And>i. i \<in> used1 \<Longrightarrow> inside (rs ! i) (new1 ! f i)"
    and f3: "\<And>n. n < length new1 \<Longrightarrow>
          pixel_count (new1 ! n) = (\<Sum>i\<in>{i\<in>used1. f i = n}. pixel_count (rs ! i))"
    by blast
  note o = outer_fold [OF s1 kl']
  note o2 = o [THEN conjunct2, THEN conjunct1]
  from Suc.prems(1) s1 have step: "outer_step rs gap k (new1, used1, m1) = (new, used, m)"
    by simp
  have fin1: "finite used1" using o2 by (meson finite_atLeastLessThan finite_subset)
  show ?case
  proof (cases "k \<in> used1")
    case True
    with step have eq: "new = new1" "used = used1"
      by (simp_all add: outer_step_def)
    show ?thesis unfolding eq using f1 f2 f3 by blast
  next
    case False
    obtain acc used' m' where
      inn: "fold (inner_step rs gap) [k + 1..<length rs] (rs ! k, used1, m1) = (acc, used', m')"
      by (metis prod_cases3)
    with step False have eq: "new = new1 @ [acc]" "used = insert k used'"
      by (simp_all add: outer_step_def)
    note inv = inner_fold [OF inn distinct_upt fin1]
    note iv1 = inv [THEN conjunct1]
    note iv2 = inv [THEN conjunct2, THEN conjunct1]
    note iv3 = inv [THEN conjunct2, THEN conjunct2, THEN conjunct1]
    note ins = inner_fold_inside [OF inn]
    have fin': "finite used'"
      using iv2 fin1 by (meson finite_UnI finite_set finite_subset)
    have kn': "k \<notin> used'" using iv2 False by auto
    note knu = False
    define g where "g = (\<lambda>i. if i \<in> used1 then f i else length new1)"
    have g1: "g i < length new \<and> inside (rs ! i) (new ! g i)" if "i \<in> used" for i
    proof (cases "i \<in> used1")
      case True
      then show ?thesis unfolding eq g_def using f1 [OF True] f2 [OF True]
        by (simp add: nth_append)
    next
      case False
      with that have "i = k \<or> i \<in> used' - used1" unfolding eq by blast
      then have "inside (rs ! i) acc" using ins by blast
      then show ?thesis unfolding eq g_def using False by simp
    qed
    have g2: "pixel_count (new ! n) = (\<Sum>i\<in>{i\<in>used. g i = n}. pixel_count (rs ! i))"
      if "n < length new" for n
    proof (cases "n < length new1")
      case True
      have "{i\<in>used. g i = n} = {i\<in>used1. f i = n}"
        unfolding eq g_def using True iv1 by auto
      then show ?thesis unfolding eq using f3 [OF True] True by (simp add: nth_append)
    next
      case False
      with that have n: "n = length new1" unfolding eq by simp
      have s: "{i\<in>used. g i = n} = insert k (used' - used1)"
        unfolding eq g_def n using f1 iv1 knu by (auto dest: f1 split: if_splits)
      have fd: "finite (used' - used1)" using fin' by simp
      have kd: "k \<notin> used' - used1" using kn' by simp
      show ?thesis unfolding s unfolding eq n using iv3 fd kd by simp
    qed
    from g1 g2 show ?thesis by blast
  qed
qed

lemma merge_pass_grouping:
  assumes "merge_pass rs gap = (new, m)"
  shows "\<exists>f. grouping rs new f"
proof -
  obtain used where
    f: "fold (outer_step rs gap) [0..<length rs] ([], {}, False) = (new, used, m)"
    using assms by (auto simp: merge_pass_def split: prod.splits)
  note o = outer_fold [OF f order_refl]
  note o1 = o [THEN conjunct1]
  note o2 = o [THEN conjunct2, THEN conjunct1]
  have u: "used = {0..<length rs}" by (rule subset_antisym [OF o2 o1])
  have u': "{i \<in> {0..<length rs}. g i = n} = {i. i < length rs \<and> g i = n}"
    for g :: "nat \<Rightarrow> nat" and n by auto
  from outer_fold_groups [OF f order_refl] obtain g where
    g1: "\<And>i. i \<in> used \<Longrightarrow> g i < length new \<and> inside (rs ! i) (new ! g i)"
    and g2: "\<And>n. n < length new \<Longrightarrow>
          pixel_count (new ! n) = (\<Sum>i\<in>{i\<in>used. g i = n}. pixel_count (rs ! i))"
    by blast
  have "grouping rs new g"
    unfolding grouping_def using g1 g2 unfolding u u' by simp
  then show ?thesis by blast
qed

lemma grouping_id: "grouping rs rs (\<lambda>i. i)"
proof -
  have "{i. i < length rs \<and> i = m} = {m}" if "m < length rs" for m
    using that by auto
  then show ?thesis by (simp add: grouping_def inside_refl)
qed

lemma grouping_comp:
  assumes a: "grouping rs mid f" and b: "grouping mid out g"
  shows "grouping rs out (g \<circ> f)"
proof -
  have a1: "f i < length mid" "inside (rs ! i) (mid ! f i)" if "i < length rs" for i
    using a that by (simp_all add: grouping_def)
  have a2: "pixel_count (mid ! n) = (\<Sum>i\<in>{i. i < length rs \<and> f i = n}. pixel_count (rs ! i))"
    if "n < length mid" for n using a that by (simp add: grouping_def)
  have b1: "g i < length out" "inside (mid ! i) (out ! g i)" if "i < length mid" for i
    using b that by (simp_all add: grouping_def)
  have b2: "pixel_count (out ! n) = (\<Sum>i\<in>{i. i < length mid \<and> g i = n}. pixel_count (mid ! i))"
    if "n < length out" for n using b that by (simp add: grouping_def)
  have c1: "(g \<circ> f) i < length out \<and> inside (rs ! i) (out ! (g \<circ> f) i)" if "i < length rs" for i
    using a1 [OF that] b1 [OF a1(1) [OF that]] inside_trans by auto
  have c2: "pixel_count (out ! n) = (\<Sum>i\<in>{i. i < length rs \<and> (g \<circ> f) i = n}. pixel_count (rs ! i))"
    if "n < length out" for n
  proof -
    let ?S = "{i. i < length rs \<and> g (f i) = n}"
    let ?T = "{j. j < length mid \<and> g j = n}"
    have fs: "finite ?S" and ft: "finite ?T" by simp_all
    have im: "f ` ?S \<subseteq> ?T" using a1(1) by auto
    have e: "{x \<in> ?S. f x = j} = {i. i < length rs \<and> f i = j}" if "j \<in> ?T" for j
      using that by auto
    have st: "pixel_count (mid ! j) = (\<Sum>i\<in>{x \<in> ?S. f x = j}. pixel_count (rs ! i))"
      if "j \<in> ?T" for j
    proof -
      from that have "j < length mid" by simp
      from a2 [OF this] show ?thesis unfolding e [OF that] .
    qed
    have "(\<Sum>j\<in>?T. pixel_count (mid ! j)) =
          (\<Sum>j\<in>?T. \<Sum>i\<in>{x \<in> ?S. f x = j}. pixel_count (rs ! i))"
      by (rule sum.cong [OF refl]) (rule st)
    also have "\<dots> = (\<Sum>i\<in>?S. pixel_count (rs ! i))"
      by (rule sum.group [OF fs ft im])
    finally show ?thesis using b2 [OF that] by simp
  qed
  from c1 c2 show ?thesis unfolding grouping_def by blast
qed

lemma merge_loop_grouping: "\<exists>f. grouping rs (merge_loop rs gap) f"
proof (induction rs gap rule: merge_loop.induct)
  case (1 regions gap)
  obtain new m where p: "merge_pass regions gap = (new, m)" by (metis surj_pair)
  from merge_pass_grouping [OF p] obtain f where f: "grouping regions new f" ..
  show ?case
  proof (cases m)
    case True
    then have e: "merge_loop regions gap = merge_loop new gap"
      using p by (subst merge_loop.simps) simp
    from "1.IH" [OF p [symmetric]] True obtain g where "grouping new (merge_loop new gap) g"
      by blast
    from grouping_comp [OF f this] show ?thesis unfolding e by blast
  next
    case False
    then have "merge_loop regions gap = new"
      using p by (subst merge_loop.simps) simp
    with f show ?thesis by auto
  qed
qed

section \<open>The background mask\<close>

text \<open>
  \<open>flood_fill_background\<close> (lines 22--52). The deque is a list, popped at the head and
  appended at the tail. \<open>visited\<close> is the caller's list, mutated in place in the source
  and returned here; an index past its end is Python's \<open>IndexError\<close>, the result
  \<open>None\<close>.
\<close>

definition in_range :: "nat \<Rightarrow> nat \<Rightarrow> int \<times> int \<Rightarrow> bool" where
  "in_range w h p = (case p of (x, y) \<Rightarrow> \<not> (x < 0 \<or> x \<ge> int w \<or> y < 0 \<or> y \<ge> int h))"

definition pixel_index :: "nat \<Rightarrow> int \<times> int \<Rightarrow> nat" where
  "pixel_index w p = (case p of (x, y) \<Rightarrow> nat (y * int w + x))"

definition neighbours :: "int \<times> int \<Rightarrow> (int \<times> int) list" where
  "neighbours p = (case p of (x, y) \<Rightarrow> [(x + 1, y), (x - 1, y), (x, y + 1), (x, y - 1)])"

definition background_at :: "(int \<times> int \<Rightarrow> rgba) \<Rightarrow> int \<times> int \<Rightarrow> bool" where
  "background_at px p = (case px p of (r, g, b, a) \<Rightarrow> is_background_pixel r g b 12)"

definition edge_seeds :: "nat \<Rightarrow> nat \<Rightarrow> (int \<times> int) list" where
  "edge_seeds w h =
     concat (map (\<lambda>x. map (\<lambda>y. (int x, y)) [0, int h - 1]) [0..<w]) @
     concat (map (\<lambda>y. map (\<lambda>x. (x, int y)) [0, int w - 1]) [0..<h])"

definition unvisited :: "bool list \<Rightarrow> nat" where
  "unvisited visited = length (filter (\<lambda>b. \<not> b) visited)"

lemma unvisited_update:
  "i < length v \<Longrightarrow> \<not> v ! i \<Longrightarrow> unvisited (v[i := True]) < unvisited v"
proof (induction v arbitrary: i)
  case Nil
  then show ?case by simp
next
  case (Cons b v)
  then show ?case by (cases i) (auto simp: unvisited_def)
qed

function flood_loop :: "image \<Rightarrow> (int \<times> int) list \<Rightarrow> bool list \<Rightarrow> bool list option" where
  "flood_loop img [] visited = Some visited"
| "flood_loop img (p # queue) visited =
     (if \<not> in_range (size_w img) (size_h img) p then flood_loop img queue visited
      else if pixel_index (size_w img) p \<ge> length visited then None
      else if visited ! pixel_index (size_w img) p then flood_loop img queue visited
      else if \<not> background_at (pixels img) p then flood_loop img queue visited
      else flood_loop img (queue @ neighbours p) (visited[pixel_index (size_w img) p := True]))"
  by pat_completeness auto
termination
  by (relation "measures [\<lambda>(img, queue, visited). unvisited visited, \<lambda>(img, queue, visited). length queue]")
    (auto simp: unvisited_update)

definition flood_fill_background :: "image \<Rightarrow> bool list \<Rightarrow> bool list option" where
  "flood_fill_background img_rgba visited =
     flood_loop img_rgba (edge_seeds (size_w img_rgba) (size_h img_rgba)) visited"

lemma pixel_index_less:
  assumes "in_range w h p"
  shows "pixel_index w p < w * h"
proof -
  obtain x y where p: "p = (x, y)" by (cases p)
  from assms p have b: "0 \<le> x" "x < int w" "0 \<le> y" "y < int h"
    by (simp_all add: in_range_def)
  from b have "y + 1 \<le> int h" by simp
  then have "(y + 1) * int w \<le> int h * int w"
    by (rule mult_right_mono) simp
  then have "y * int w + x < int h * int w"
    using b by (simp add: algebra_simps)
  moreover have "0 \<le> y * int w + x" using b by simp
  ultimately have "nat (y * int w + x) < nat (int h * int w)" by simp
  then show ?thesis
    unfolding p pixel_index_def by (simp add: nat_mult_distrib mult.commute)
qed

lemma pixel_index_inj:
  assumes "in_range w h p" "in_range w h q" "pixel_index w p = pixel_index w q"
  shows "p = q"
proof -
  obtain x y where p: "p = (x, y)" by (cases p)
  obtain x' y' where q: "q = (x', y')" by (cases q)
  from assms p q have b: "0 \<le> x" "x < int w" "0 \<le> y" "0 \<le> x'" "x' < int w" "0 \<le> y'"
    by (simp_all add: in_range_def)
  have nn: "0 \<le> y * int w + x" "0 \<le> y' * int w + x'" using b by simp_all
  from assms(3) have "nat (y * int w + x) = nat (y' * int w + x')"
    unfolding p q pixel_index_def by simp
  with nn have e: "y * int w + x = y' * int w + x'"
    by (simp only: nat_eq_iff2 int_nat_eq if_True)
  have "(y * int w + x) div int w = y" "(y * int w + x) mod int w = x"
    "(y' * int w + x') div int w = y'" "(y' * int w + x') mod int w = x'"
    using b by simp_all
  with e show ?thesis unfolding p q by metis
qed

lemma flood_loop_length: "flood_loop img q v = Some v' \<Longrightarrow> length v' = length v"
  by (induction img q v rule: flood_loop.induct) (auto split: if_splits)

lemma flood_loop_mono:
  "flood_loop img q v = Some v' \<Longrightarrow> i < length v \<Longrightarrow> v ! i \<Longrightarrow> v' ! i"
proof (induction img q v rule: flood_loop.induct)
  case (1 img visited)
  then show ?case by simp
next
  case (2 img p queue visited)
  then show ?case
    by (auto split: if_splits simp: nth_list_update)
qed

lemma flood_loop_total:
  "size_w img * size_h img \<le> length v \<Longrightarrow> \<exists>v'. flood_loop img q v = Some v'"
proof (induction img q v rule: flood_loop.induct)
  case (1 img visited)
  then show ?case by simp
next
  case (2 img p queue visited)
  show ?case
  proof (cases "in_range (size_w img) (size_h img) p")
    case True
    from pixel_index_less [OF True] "2.prems"
    have "pixel_index (size_w img) p < length visited" by simp
    with True 2 show ?thesis by simp
  next
    case False
    with 2 show ?thesis by simp
  qed
qed


definition on_border :: "nat \<Rightarrow> nat \<Rightarrow> int \<times> int \<Rightarrow> bool" where
  "on_border w h p = (case p of (x, y) \<Rightarrow> x = 0 \<or> x = int w - 1 \<or> y = 0 \<or> y = int h - 1)"

text \<open>
  4-connectivity as the specification's glossary has it, stated without the fill's list
  of neighbours: two pixels are adjacent when they differ by one step up, down, left or
  right, that is, when their coordinates are at Manhattan distance 1. A pixel is
  reachable when it is a background-like border pixel of the sheet, or a background-like
  pixel of the sheet adjacent to a reachable one.
\<close>

definition adjacent :: "int \<times> int \<Rightarrow> int \<times> int \<Rightarrow> bool" where
  "adjacent p q = (case p of (x, y) \<Rightarrow> case q of (x', y') \<Rightarrow> \<bar>x - x'\<bar> + \<bar>y - y'\<bar> = 1)"

inductive reachable :: "image \<Rightarrow> int \<times> int \<Rightarrow> bool" for img :: image where
  seed: "in_range (size_w img) (size_h img) p \<Longrightarrow> on_border (size_w img) (size_h img) p \<Longrightarrow>
         background_at (pixels img) p \<Longrightarrow> reachable img p"
| step: "reachable img p \<Longrightarrow> adjacent p q \<Longrightarrow>
         in_range (size_w img) (size_h img) q \<Longrightarrow> background_at (pixels img) q \<Longrightarrow>
         reachable img q"

lemma unit_step_iff:
  "((x' = x + 1 \<and> y' = y) \<or> (x' = x - 1 \<and> y' = y) \<or> (x' = x \<and> y' = y + 1) \<or>
    (x' = x \<and> y' = y - 1)) = (\<bar>x - x'\<bar> + \<bar>y - y'\<bar> = (1 :: int))"
  by (cases "x \<le> x'"; cases "y \<le> y'"; simp add: abs_if; arith)

lemma neighbours_adjacent: "q \<in> set (neighbours p) = adjacent p q"
proof -
  obtain x y where p: "p = (x, y)" by (cases p)
  obtain x' y' where q: "q = (x', y')" by (cases q)
  have m: "((x', y') \<in> set [(x + 1, y), (x - 1, y), (x, y + 1), (x, y - 1)]) =
      ((x' = x + 1 \<and> y' = y) \<or> (x' = x - 1 \<and> y' = y) \<or> (x' = x \<and> y' = y + 1) \<or>
       (x' = x \<and> y' = y - 1))"
    by simp
  show ?thesis
    unfolding p q neighbours_def adjacent_def prod.case m by (rule unit_step_iff)
qed

lemma reachable_background: "reachable img p \<Longrightarrow> background_at (pixels img) p"
  by (induction rule: reachable.induct) simp_all

lemma reachable_in_range: "reachable img p \<Longrightarrow> in_range (size_w img) (size_h img) p"
  by (induction rule: reachable.induct) simp_all

lemma flood_loop_sound:
  assumes "flood_loop img q v = Some v'"
    and "\<And>p. in_range (size_w img) (size_h img) p \<Longrightarrow> v ! pixel_index (size_w img) p \<Longrightarrow>
             reachable img p"
    and "\<And>p. p \<in> set q \<Longrightarrow> in_range (size_w img) (size_h img) p \<Longrightarrow>
             background_at (pixels img) p \<Longrightarrow> reachable img p"
    and "in_range (size_w img) (size_h img) p" and "v' ! pixel_index (size_w img) p"
  shows "reachable img p"
  using assms
proof (induction img q v rule: flood_loop.induct)
  case (1 img visited)
  then show ?case by simp
next
  case (2 img c queue visited)
  let ?w = "size_w img" and ?h = "size_h img"
  let ?i = "pixel_index ?w c"
  show ?case
  proof (cases "in_range ?w ?h c \<and> ?i < length visited \<and> \<not> visited ! ?i \<and>
                background_at (pixels img) c")
    case True
    then have run: "flood_loop img (queue @ neighbours c) (visited[?i := True]) = Some v'"
      using "2.prems"(1) by simp
    have rc: "reachable img c" using True "2.prems"(3) by simp
    have a: "reachable img p'"
      if "in_range ?w ?h p'" "visited[?i := True] ! pixel_index ?w p'" for p'
    proof (cases "pixel_index ?w p' = ?i")
      case True
      with that \<open>in_range ?w ?h c \<and> _\<close> have "p' = c" using pixel_index_inj by blast
      with rc show ?thesis by simp
    next
      case False
      with that have "visited ! pixel_index ?w p'" by simp
      with that "2.prems"(2) show ?thesis by blast
    qed
    have b: "reachable img n"
      if "n \<in> set (queue @ neighbours c)" "in_range ?w ?h n" "background_at (pixels img) n" for n
    proof (cases "n \<in> set queue")
      case True
      with that "2.prems"(3) show ?thesis by simp
    next
      case False
      with that have "n \<in> set (neighbours c)" by simp
      then have "adjacent c n" by (simp only: neighbours_adjacent)
      from reachable.step [OF rc this that(2,3)] show ?thesis .
    qed
    from True have c1: "\<not> \<not> in_range ?w ?h c" "\<not> length visited \<le> ?i" "\<not> visited ! ?i"
      "\<not> \<not> background_at (pixels img) c" by simp_all
    show ?thesis
      by (rule "2.IH"(4) [OF c1 run a b "2.prems"(4,5)])
  next
    case False
    then have run: "flood_loop img queue visited = Some v'"
      using "2.prems"(1) by (auto split: if_splits)
    have qb: "reachable img n"
      if "n \<in> set queue" "in_range ?w ?h n" "background_at (pixels img) n" for n
      using that "2.prems"(3) by simp
    from False consider
      (a) "\<not> in_range ?w ?h c"
      | (b) "\<not> \<not> in_range ?w ?h c" "\<not> length visited \<le> ?i" "visited ! ?i"
      | (c) "\<not> \<not> in_range ?w ?h c" "\<not> length visited \<le> ?i" "\<not> visited ! ?i"
          "\<not> background_at (pixels img) c"
      | (d) "in_range ?w ?h c" "length visited \<le> ?i"
      by fastforce
    then show ?thesis
    proof cases
      case a
      show ?thesis by (rule "2.IH"(1) [OF a run "2.prems"(2) qb "2.prems"(4,5)])
    next
      case b
      show ?thesis by (rule "2.IH"(2) [OF b run "2.prems"(2) qb "2.prems"(4,5)])
    next
      case c
      show ?thesis by (rule "2.IH"(3) [OF c run "2.prems"(2) qb "2.prems"(4,5)])
    next
      case d
      with "2.prems"(1) show ?thesis by simp
    qed
  qed
qed


lemma flood_loop_invariant:
  assumes "flood_loop img q v = Some v'" and "I q v"
    and skip: "\<And>p q v. I (p # q) v \<Longrightarrow>
        \<not> in_range (size_w img) (size_h img) p \<or>
        (pixel_index (size_w img) p < length v \<and>
          (v ! pixel_index (size_w img) p \<or> \<not> background_at (pixels img) p)) \<Longrightarrow> I q v"
    and mark: "\<And>p q v. I (p # q) v \<Longrightarrow> in_range (size_w img) (size_h img) p \<Longrightarrow>
        pixel_index (size_w img) p < length v \<Longrightarrow> \<not> v ! pixel_index (size_w img) p \<Longrightarrow>
        background_at (pixels img) p \<Longrightarrow>
        I (q @ neighbours p) (v[pixel_index (size_w img) p := True])"
  shows "I [] v'"
  using assms
proof (induction img q v rule: flood_loop.induct)
  case (1 img visited)
  then show ?case by simp
next
  case (2 img c queue visited)
  note skip' = "2.prems"(3) and mark' = "2.prems"(4)
  let ?w = "size_w img" and ?h = "size_h img"
  let ?i = "pixel_index ?w c"
  consider
    (a) "\<not> in_range ?w ?h c"
    | (b) "\<not> \<not> in_range ?w ?h c" "\<not> length visited \<le> ?i" "visited ! ?i"
    | (c) "\<not> \<not> in_range ?w ?h c" "\<not> length visited \<le> ?i" "\<not> visited ! ?i"
        "\<not> background_at (pixels img) c"
    | (d) "\<not> \<not> in_range ?w ?h c" "\<not> length visited \<le> ?i" "\<not> visited ! ?i"
        "\<not> \<not> background_at (pixels img) c"
    | (e) "in_range ?w ?h c" "length visited \<le> ?i"
    by fastforce
  then show ?case
  proof cases
    case a
    then have run: "flood_loop img queue visited = Some v'" using "2.prems"(1) by simp
    have "I queue visited" by (rule skip' [OF "2.prems"(2)]) (simp add: a)
    from "2.IH"(1) [OF a run this skip' mark'] show ?thesis .
  next
    case b
    then have run: "flood_loop img queue visited = Some v'" using "2.prems"(1) by simp
    have "I queue visited" by (rule skip' [OF "2.prems"(2)]) (use b in simp)
    from "2.IH"(2) [OF b run this skip' mark'] show ?thesis .
  next
    case c
    then have run: "flood_loop img queue visited = Some v'" using "2.prems"(1) by simp
    have "I queue visited" by (rule skip' [OF "2.prems"(2)]) (use c in simp)
    from "2.IH"(3) [OF c run this skip' mark'] show ?thesis .
  next
    case d
    then have run: "flood_loop img (queue @ neighbours c) (visited[?i := True]) = Some v'"
      using "2.prems"(1) by simp
    have "I (queue @ neighbours c) (visited[?i := True])"
      by (rule mark' [OF "2.prems"(2)]) (use d in simp_all)
    from "2.IH"(4) [OF d run this skip' mark'] show ?thesis .
  next
    case e
    with "2.prems"(1) show ?thesis by simp
  qed
qed


definition closed_under :: "image \<Rightarrow> (int \<times> int) list \<Rightarrow> bool list \<Rightarrow> bool" where
  "closed_under img q v =
     ((\<forall>p n. in_range (size_w img) (size_h img) p \<longrightarrow> v ! pixel_index (size_w img) p \<longrightarrow>
          n \<in> set (neighbours p) \<longrightarrow> in_range (size_w img) (size_h img) n \<longrightarrow>
          background_at (pixels img) n \<longrightarrow> v ! pixel_index (size_w img) n \<or> n \<in> set q) \<and>
      (\<forall>s. in_range (size_w img) (size_h img) s \<longrightarrow> on_border (size_w img) (size_h img) s \<longrightarrow>
          background_at (pixels img) s \<longrightarrow> v ! pixel_index (size_w img) s \<or> s \<in> set q))"

lemma closed_under_skip:
  assumes c: "closed_under img (c # q) v"
    and s: "\<not> in_range (size_w img) (size_h img) c \<or>
        (pixel_index (size_w img) c < length v \<and>
          (v ! pixel_index (size_w img) c \<or> \<not> background_at (pixels img) c))"
  shows "closed_under img q v"
proof -
  let ?w = "size_w img" and ?h = "size_h img"
  have drop: "v ! pixel_index ?w n \<or> n \<in> set q"
    if "v ! pixel_index ?w n \<or> n \<in> set (c # q)" "in_range ?w ?h n" "background_at (pixels img) n"
    for n
    using that s by auto
  have 1: "v ! pixel_index ?w n \<or> n \<in> set q"
    if "in_range ?w ?h p" "v ! pixel_index ?w p" "n \<in> set (neighbours p)" "in_range ?w ?h n"
      "background_at (pixels img) n" for p n
  proof -
    from c that have "v ! pixel_index ?w n \<or> n \<in> set (c # q)"
      unfolding closed_under_def by blast
    from drop [OF this that(4,5)] show ?thesis .
  qed
  have 2: "v ! pixel_index ?w n \<or> n \<in> set q"
    if "in_range ?w ?h n" "on_border ?w ?h n" "background_at (pixels img) n" for n
  proof -
    from c that have "v ! pixel_index ?w n \<or> n \<in> set (c # q)"
      unfolding closed_under_def by blast
    from drop [OF this that(1,3)] show ?thesis .
  qed
  from 1 2 show ?thesis unfolding closed_under_def by blast
qed

lemma closed_under_mark:
  assumes c: "closed_under img (c # q) v"
    and r: "in_range (size_w img) (size_h img) c"
    and l: "pixel_index (size_w img) c < length v"
  shows "closed_under img (q @ neighbours c) (v[pixel_index (size_w img) c := True])"
proof -
  let ?w = "size_w img" and ?h = "size_h img"
  let ?v = "v[pixel_index ?w c := True]"
  have up: "?v ! i = (i = pixel_index ?w c \<or> v ! i)" for i
    using l by (auto simp: nth_list_update)
  have keep: "?v ! pixel_index ?w n \<or> n \<in> set (q @ neighbours c)"
    if "v ! pixel_index ?w n \<or> n \<in> set (c # q)" for n
    using that up by auto
  have 1: "?v ! pixel_index ?w n \<or> n \<in> set (q @ neighbours c)"
    if "in_range ?w ?h p" "?v ! pixel_index ?w p" "n \<in> set (neighbours p)" "in_range ?w ?h n"
      "background_at (pixels img) n" for p n
  proof (cases "pixel_index ?w p = pixel_index ?w c")
    case True
    from pixel_index_inj [OF that(1) r True] that(3) show ?thesis by simp
  next
    case False
    with that(2) up have "v ! pixel_index ?w p" by simp
    with c that have "v ! pixel_index ?w n \<or> n \<in> set (c # q)"
      unfolding closed_under_def by blast
    from keep [OF this] show ?thesis .
  qed
  have 2: "?v ! pixel_index ?w n \<or> n \<in> set (q @ neighbours c)"
    if "in_range ?w ?h n" "on_border ?w ?h n" "background_at (pixels img) n" for n
  proof -
    from c that have "v ! pixel_index ?w n \<or> n \<in> set (c # q)"
      unfolding closed_under_def by blast
    from keep [OF this] show ?thesis .
  qed
  from 1 2 show ?thesis unfolding closed_under_def by blast
qed

lemma flood_loop_closed:
  assumes "flood_loop img q v = Some v'" and "closed_under img q v"
  shows "closed_under img [] v'"
  by (rule flood_loop_invariant [where I = "closed_under img", OF assms])
    (erule closed_under_skip, assumption, erule closed_under_mark, assumption+)

lemma closed_reachable:
  assumes "closed_under img [] v" and "reachable img p"
  shows "v ! pixel_index (size_w img) p"
  using assms(2)
proof (induction rule: reachable.induct)
  case (seed p)
  from assms(1) have "in_range (size_w img) (size_h img) s \<longrightarrow>
      on_border (size_w img) (size_h img) s \<longrightarrow> background_at (pixels img) s \<longrightarrow>
      v ! pixel_index (size_w img) s \<or> s \<in> set []" for s
    unfolding closed_under_def by (elim conjE allE)
  from this [of p] seed show ?case by simp
next
  case (step p q)
  have nb: "q \<in> set (neighbours p)"
    using step.hyps(2) by (simp only: neighbours_adjacent)
  have rp: "in_range (size_w img) (size_h img) p"
    by (rule reachable_in_range [OF step.hyps(1)])
  from assms(1) have "in_range (size_w img) (size_h img) p \<longrightarrow> v ! pixel_index (size_w img) p \<longrightarrow>
      n \<in> set (neighbours p) \<longrightarrow> in_range (size_w img) (size_h img) n \<longrightarrow>
      background_at (pixels img) n \<longrightarrow> v ! pixel_index (size_w img) n \<or> n \<in> set []" for p n
    unfolding closed_under_def by (elim conjE allE)
  from this [of p q, rule_format, OF rp step.IH nb step.hyps(3,4)]
  show ?case by simp
qed

lemma edge_seeds_border:
  assumes "in_range w h p" "on_border w h p"
  shows "p \<in> set (edge_seeds w h)"
proof -
  obtain x y where p: "p = (x, y)" by (cases p)
  from assms p have b: "0 \<le> x" "x < int w" "0 \<le> y" "y < int h"
    by (simp_all add: in_range_def)
  then have nx: "nat x < w" "int (nat x) = x" and ny: "nat y < h" "int (nat y) = y" by simp_all
  from assms(2) p consider "y = 0 \<or> y = int h - 1" | "x = 0 \<or> x = int w - 1"
    by (auto simp: on_border_def)
  then show ?thesis
  proof cases
    case 1
    have "(x, y) \<in> set (map (\<lambda>y. (int (nat x), y)) [0, int h - 1])"
      using 1 nx(2) by auto
    moreover have "map (\<lambda>y. (int (nat x), y)) [0, int h - 1]
        \<in> set (map (\<lambda>x. map (\<lambda>y. (int x, y)) [0, int h - 1]) [0..<w])"
      unfolding set_map by (rule imageI) (simp add: nx(1))
    ultimately have "(x, y) \<in> set (concat (map (\<lambda>x. map (\<lambda>y. (int x, y)) [0, int h - 1]) [0..<w]))"
      unfolding set_concat by (rule UN_I [rotated])
    then show ?thesis unfolding p edge_seeds_def by simp
  next
    case 2
    have "(x, y) \<in> set (map (\<lambda>x. (x, int (nat y))) [0, int w - 1])"
      using 2 ny(2) by auto
    moreover have "map (\<lambda>x. (x, int (nat y))) [0, int w - 1]
        \<in> set (map (\<lambda>y. map (\<lambda>x. (x, int y)) [0, int w - 1]) [0..<h])"
      unfolding set_map by (rule imageI) (simp add: ny(1))
    ultimately have "(x, y) \<in> set (concat (map (\<lambda>y. map (\<lambda>x. (x, int y)) [0, int w - 1]) [0..<h]))"
      unfolding set_concat by (rule UN_I [rotated])
    then show ?thesis unfolding p edge_seeds_def by simp
  qed
qed

lemma edge_seeds_sound:
  assumes "p \<in> set (edge_seeds w h)" "in_range w h p"
  shows "on_border w h p"
  using assms by (auto simp: edge_seeds_def on_border_def)


section \<open>The per-sprite transparency pass\<close>

text \<open>
  \<open>make_background_transparent\<close> (lines 136--172): the same fill on the cropped sprite,
  with its own \<open>visited\<close> list, writing \<open>(r, g, b, 0)\<close> into each pixel it marks.
\<close>

definition set_alpha_zero :: "rgba \<Rightarrow> rgba" where
  "set_alpha_zero c = (case c of (r, g, b, a) \<Rightarrow> (r, g, b, 0))"

function transparent_loop ::
  "nat \<Rightarrow> nat \<Rightarrow> (int \<times> int) list \<Rightarrow> bool list \<Rightarrow> (int \<times> int \<Rightarrow> rgba) \<Rightarrow>
     (bool list \<times> (int \<times> int \<Rightarrow> rgba)) option" where
  "transparent_loop w h [] visited px = Some (visited, px)"
| "transparent_loop w h (p # queue) visited px =
     (if \<not> in_range w h p then transparent_loop w h queue visited px
      else if pixel_index w p \<ge> length visited then None
      else if visited ! pixel_index w p then transparent_loop w h queue visited px
      else if \<not> background_at px p then transparent_loop w h queue visited px
      else transparent_loop w h (queue @ neighbours p) (visited[pixel_index w p := True])
             (px(p := set_alpha_zero (px p))))"
  by pat_completeness auto
termination
  by (relation "measures [\<lambda>(w, h, queue, visited, px). unvisited visited,
                          \<lambda>(w, h, queue, visited, px). length queue]")
    (auto simp: unvisited_update)

definition make_background_transparent :: "image \<Rightarrow> image option" where
  "make_background_transparent sprite_img =
     (let w = size_w sprite_img; h = size_h sprite_img;
          visited = replicate (w * h) False;
          queue = edge_seeds w h
      in case transparent_loop w h queue visited (pixels sprite_img) of
           None \<Rightarrow> None
         | Some (visited', px') \<Rightarrow> Some (sprite_img\<lparr>pixels := px'\<rparr>))"

lemma background_at_alpha:
  "background_at (px(c := set_alpha_zero (px c))) p = background_at px p"
  by (simp add: background_at_def set_alpha_zero_def split: prod.splits)

lemma transparent_loop_mask:
  assumes "w = size_w img" "h = size_h img"
    and "\<And>p. background_at px p = background_at (pixels img) p"
  shows "map_option fst (transparent_loop w h q v px) = flood_loop img q v"
  using assms
proof (induction w h q v px rule: transparent_loop.induct)
  case (1 w h visited px)
  then show ?case by simp
next
  case (2 w h c queue visited px)
  note wh = "2.prems"(1,2) and bg = "2.prems"(3)
  let ?i = "pixel_index w c"
  consider
    (a) "\<not> in_range w h c"
    | (b) "\<not> \<not> in_range w h c" "\<not> length visited \<le> ?i" "visited ! ?i"
    | (c) "\<not> \<not> in_range w h c" "\<not> length visited \<le> ?i" "\<not> visited ! ?i"
        "\<not> background_at px c"
    | (d) "\<not> \<not> in_range w h c" "\<not> length visited \<le> ?i" "\<not> visited ! ?i"
        "\<not> \<not> background_at px c"
    | (e) "in_range w h c" "length visited \<le> ?i"
    by fastforce
  then show ?case
  proof cases
    case a
    from "2.IH"(1) [OF a wh bg] a show ?thesis unfolding wh by simp
  next
    case b
    from "2.IH"(2) [OF b wh bg] b show ?thesis unfolding wh by simp
  next
    case c
    from "2.IH"(3) [OF c wh bg] c bg [of c] show ?thesis unfolding wh by simp
  next
    case d
    have bg': "background_at (px(c := set_alpha_zero (px c))) p = background_at (pixels img) p" for p
      unfolding background_at_alpha by (rule bg)
    have l: "transparent_loop w h (c # queue) visited px =
        transparent_loop w h (queue @ neighbours c) (visited[?i := True])
          (px(c := set_alpha_zero (px c)))"
      using d by simp
    have r: "flood_loop img (c # queue) visited =
        flood_loop img (queue @ neighbours c) (visited[?i := True])"
      using d bg [of c] wh by simp
    show ?thesis unfolding l r by (rule "2.IH"(4) [OF d wh bg'])
  next
    case e
    then show ?thesis unfolding wh by simp
  qed
qed

lemma transparent_loop_invariant:
  assumes "transparent_loop w h q v px = Some (v', px')" and "I q v px"
    and skip: "\<And>p q v px. I (p # q) v px \<Longrightarrow>
        \<not> in_range w h p \<or>
        (pixel_index w p < length v \<and> (v ! pixel_index w p \<or> \<not> background_at px p)) \<Longrightarrow>
        I q v px"
    and mark: "\<And>p q v px. I (p # q) v px \<Longrightarrow> in_range w h p \<Longrightarrow>
        pixel_index w p < length v \<Longrightarrow> \<not> v ! pixel_index w p \<Longrightarrow> background_at px p \<Longrightarrow>
        I (q @ neighbours p) (v[pixel_index w p := True]) (px(p := set_alpha_zero (px p)))"
  shows "I [] v' px'"
  using assms
proof (induction w h q v px rule: transparent_loop.induct)
  case (1 w h visited px)
  then show ?case by simp
next
  case (2 w h c queue visited px)
  note skip' = "2.prems"(3) and mark' = "2.prems"(4)
  let ?i = "pixel_index w c"
  consider
    (a) "\<not> in_range w h c"
    | (b) "\<not> \<not> in_range w h c" "\<not> length visited \<le> ?i" "visited ! ?i"
    | (c) "\<not> \<not> in_range w h c" "\<not> length visited \<le> ?i" "\<not> visited ! ?i"
        "\<not> background_at px c"
    | (d) "\<not> \<not> in_range w h c" "\<not> length visited \<le> ?i" "\<not> visited ! ?i"
        "\<not> \<not> background_at px c"
    | (e) "in_range w h c" "length visited \<le> ?i"
    by fastforce
  then show ?case
  proof cases
    case a
    then have run: "transparent_loop w h queue visited px = Some (v', px')"
      using "2.prems"(1) by simp
    have "I queue visited px" by (rule skip' [OF "2.prems"(2)]) (simp add: a)
    from "2.IH"(1) [OF a run this skip' mark'] show ?thesis .
  next
    case b
    then have run: "transparent_loop w h queue visited px = Some (v', px')"
      using "2.prems"(1) by simp
    have "I queue visited px" by (rule skip' [OF "2.prems"(2)]) (use b in simp)
    from "2.IH"(2) [OF b run this skip' mark'] show ?thesis .
  next
    case c
    then have run: "transparent_loop w h queue visited px = Some (v', px')"
      using "2.prems"(1) by simp
    have "I queue visited px" by (rule skip' [OF "2.prems"(2)]) (use c in simp)
    from "2.IH"(3) [OF c run this skip' mark'] show ?thesis .
  next
    case d
    then have run: "transparent_loop w h (queue @ neighbours c) (visited[?i := True])
        (px(c := set_alpha_zero (px c))) = Some (v', px')"
      using "2.prems"(1) by simp
    have "I (queue @ neighbours c) (visited[?i := True]) (px(c := set_alpha_zero (px c)))"
      by (rule mark' [OF "2.prems"(2)]) (use d in simp_all)
    from "2.IH"(4) [OF d run this skip' mark'] show ?thesis .
  next
    case e
    with "2.prems"(1) show ?thesis by simp
  qed
qed


lemma transparent_loop_frame:
  assumes run: "transparent_loop w h q v0 px0 = Some (v', px')"
  shows "length v' = length v0 \<and>
         (\<forall>p. px' p = (if in_range w h p \<and> v' ! pixel_index w p \<and> \<not> v0 ! pixel_index w p
                        then set_alpha_zero (px0 p) else px0 p))"
proof -
  define J where "J = (\<lambda>(q :: (int \<times> int) list) v px.
     length v = length v0 \<and> (\<forall>i<length v0. v0 ! i \<longrightarrow> v ! i) \<and>
     (\<forall>p. px p = (if in_range w h p \<and> v ! pixel_index w p \<and> \<not> v0 ! pixel_index w p
                    then set_alpha_zero (px0 p) else px0 p)))"
  have init: "J q v0 px0" unfolding J_def by simp
  have skip: "J q v px" if "J (p # q) v px" for p q v px
    using that unfolding J_def by simp
  have mark: "J (q @ neighbours c) (v[pixel_index w c := True]) (px(c := set_alpha_zero (px c)))"
    if j: "J (c # q) v px" and r: "in_range w h c" and l: "pixel_index w c < length v"
      and n: "\<not> v ! pixel_index w c" for c q v px
  proof -
    let ?i = "pixel_index w c"
    from j have j1: "length v = length v0" and j2: "\<And>i. i < length v0 \<Longrightarrow> v0 ! i \<Longrightarrow> v ! i"
      and j3: "\<And>p. px p = (if in_range w h p \<and> v ! pixel_index w p \<and> \<not> v0 ! pixel_index w p
                    then set_alpha_zero (px0 p) else px0 p)"
      unfolding J_def by blast+
    have n0: "\<not> v0 ! ?i" using j2 [of ?i] l n j1 by auto
    have pc: "px c = px0 c" using j3 [of c] n by simp
    have up: "v[?i := True] ! k = (k = ?i \<or> v ! k)" for k
      using l by (auto simp: nth_list_update)
    have a: "\<forall>i<length v0. v0 ! i \<longrightarrow> v[?i := True] ! i"
      using j2 up by blast
    have b: "(px(c := set_alpha_zero (px c))) p =
        (if in_range w h p \<and> v[?i := True] ! pixel_index w p \<and> \<not> v0 ! pixel_index w p
         then set_alpha_zero (px0 p) else px0 p)" for p
    proof (cases "p = c")
      case True
      then show ?thesis using r n0 pc up by simp
    next
      case False
      have "pixel_index w p \<noteq> ?i" if "in_range w h p"
        using pixel_index_inj [OF that r] False by blast
      then have "(in_range w h p \<and> v[?i := True] ! pixel_index w p) =
          (in_range w h p \<and> v ! pixel_index w p)"
        unfolding up by blast
      then show ?thesis using False j3 [of p] by auto
    qed
    show ?thesis unfolding J_def using j1 a b by simp
  qed
  have "J [] v' px'"
    by (rule transparent_loop_invariant [where I = J, OF run init])
      (erule skip, erule mark, assumption+)
  then show ?thesis unfolding J_def by blast
qed

section \<open>The region extractor\<close>

text \<open>
  \<open>find_sprite_regions\<close> (lines 55--98). The breadth-first search of lines 72--90
  carries \<open>region_visited\<close> and the running \<open>(min_x, min_y, max_x, max_y, region_pixels)\<close>;
  the row-major sweep carries \<open>regions\<close> and \<open>region_visited\<close>. An index past the end of
  either list is Python's \<open>IndexError\<close>, the result \<open>None\<close>.
\<close>

type_synonym bounds = "int \<times> int \<times> int \<times> int \<times> int"

definition grow :: "bounds \<Rightarrow> int \<times> int \<Rightarrow> bounds" where
  "grow b c =
     (case b of (min_x, min_y, max_x, max_y, region_pixels) \<Rightarrow> case c of (cx, cy) \<Rightarrow>
        (min min_x cx, min min_y cy, max max_x cx, max max_y cy, region_pixels + 1))"

function region_loop ::
  "bool list \<Rightarrow> nat \<Rightarrow> nat \<Rightarrow> (int \<times> int) list \<Rightarrow> bool list \<Rightarrow> bounds \<Rightarrow>
     (bool list \<times> bounds) option" where
  "region_loop visited w h [] region_visited b = Some (region_visited, b)"
| "region_loop visited w h (c # queue) region_visited b =
     (if \<not> in_range w h c then region_loop visited w h queue region_visited b
      else if pixel_index w c \<ge> length visited then None
      else if visited ! pixel_index w c then region_loop visited w h queue region_visited b
      else if pixel_index w c \<ge> length region_visited then None
      else if region_visited ! pixel_index w c
        then region_loop visited w h queue region_visited b
      else region_loop visited w h (queue @ neighbours c)
             (region_visited[pixel_index w c := True]) (grow b c))"
  by pat_completeness auto
termination
  by (relation "measures [\<lambda>(visited, w, h, queue, region_visited, b). unvisited region_visited,
                          \<lambda>(visited, w, h, queue, region_visited, b). length queue]")
    (auto simp: unvisited_update)

definition keeps :: "int \<Rightarrow> bounds \<Rightarrow> bool" where
  "keeps min_size b =
     (case b of (min_x, min_y, max_x, max_y, region_pixels) \<Rightarrow>
        (let region_w = max_x - min_x + 1; region_h = max_y - min_y + 1
         in region_w \<ge> min_size \<and> region_h \<ge> min_size))"

definition to_region :: "bounds \<Rightarrow> region" where
  "to_region b =
     (case b of (min_x, min_y, max_x, max_y, region_pixels) \<Rightarrow>
        (min_x, min_y, max_x + 1, max_y + 1, region_pixels))"

definition scan_step ::
  "bool list \<Rightarrow> nat \<Rightarrow> nat \<Rightarrow> int \<Rightarrow> int \<times> int \<Rightarrow> region list \<times> bool list \<Rightarrow>
     (region list \<times> bool list) option" where
  "scan_step visited w h min_size c s =
     (case s of (regions, region_visited) \<Rightarrow>
        if pixel_index w c \<ge> length visited then None
        else if visited ! pixel_index w c then Some s
        else if pixel_index w c \<ge> length region_visited then None
        else if region_visited ! pixel_index w c then Some s
        else (case c of (x, y) \<Rightarrow>
          (case region_loop visited w h [c] region_visited (x, y, x, y, 0) of
             None \<Rightarrow> None
           | Some (region_visited', b) \<Rightarrow>
               if keeps min_size b then Some (regions @ [to_region b], region_visited')
               else Some (regions, region_visited'))))"

fun scan ::
  "bool list \<Rightarrow> nat \<Rightarrow> nat \<Rightarrow> int \<Rightarrow> (int \<times> int) list \<Rightarrow> region list \<times> bool list \<Rightarrow>
     (region list \<times> bool list) option" where
  "scan visited w h min_size [] s = Some s"
| "scan visited w h min_size (c # cs) s =
     (case scan_step visited w h min_size c s of
        None \<Rightarrow> None
      | Some s' \<Rightarrow> scan visited w h min_size cs s')"

definition scan_positions :: "nat \<Rightarrow> nat \<Rightarrow> (int \<times> int) list" where
  "scan_positions w h = concat (map (\<lambda>y. map (\<lambda>x. (int x, int y)) [0..<w]) [0..<h])"

definition find_sprite_regions :: "bool list \<Rightarrow> nat \<Rightarrow> nat \<Rightarrow> int \<Rightarrow> region list option" where
  "find_sprite_regions visited w h min_size =
     map_option fst
       (scan visited w h min_size (scan_positions w h) ([], replicate (w * h) False))"

text \<open>
  The components as the sweep collects them, before the size test of lines 93--96:
  the bounds and count of each search, with the indices it newly marked in
  \<open>region_visited\<close>. \<open>collect\<close> is \<open>scan\<close> without the test.
\<close>

type_synonym component = "bounds \<times> nat list"

definition newly_marked :: "bool list \<Rightarrow> bool list \<Rightarrow> nat list" where
  "newly_marked rv rv' = filter (\<lambda>i. rv' ! i \<and> \<not> rv ! i) [0..<length rv]"

definition collect_step ::
  "bool list \<Rightarrow> nat \<Rightarrow> nat \<Rightarrow> int \<times> int \<Rightarrow> component list \<times> bool list \<Rightarrow>
     (component list \<times> bool list) option" where
  "collect_step visited w h c s =
     (case s of (comps, region_visited) \<Rightarrow>
        if pixel_index w c \<ge> length visited then None
        else if visited ! pixel_index w c then Some s
        else if pixel_index w c \<ge> length region_visited then None
        else if region_visited ! pixel_index w c then Some s
        else (case c of (x, y) \<Rightarrow>
          (case region_loop visited w h [c] region_visited (x, y, x, y, 0) of
             None \<Rightarrow> None
           | Some (region_visited', b) \<Rightarrow>
               Some (comps @ [(b, newly_marked region_visited region_visited')],
                     region_visited'))))"

fun collect ::
  "bool list \<Rightarrow> nat \<Rightarrow> nat \<Rightarrow> (int \<times> int) list \<Rightarrow> component list \<times> bool list \<Rightarrow>
     (component list \<times> bool list) option" where
  "collect visited w h [] s = Some s"
| "collect visited w h (c # cs) s =
     (case collect_step visited w h c s of
        None \<Rightarrow> None
      | Some s' \<Rightarrow> collect visited w h cs s')"

definition collected_components :: "bool list \<Rightarrow> nat \<Rightarrow> nat \<Rightarrow> component list option" where
  "collected_components visited w h =
     map_option fst (collect visited w h (scan_positions w h) ([], replicate (w * h) False))"


lemma region_loop_invariant:
  assumes "region_loop visited w h q rv b = Some (rv', b')" and "I q rv b"
    and skip: "\<And>c q rv b. I (c # q) rv b \<Longrightarrow>
        \<not> in_range w h c \<or>
        (pixel_index w c < length visited \<and>
          (visited ! pixel_index w c \<or>
           (pixel_index w c < length rv \<and> rv ! pixel_index w c))) \<Longrightarrow> I q rv b"
    and mark: "\<And>c q rv b. I (c # q) rv b \<Longrightarrow> in_range w h c \<Longrightarrow>
        pixel_index w c < length visited \<Longrightarrow> \<not> visited ! pixel_index w c \<Longrightarrow>
        pixel_index w c < length rv \<Longrightarrow> \<not> rv ! pixel_index w c \<Longrightarrow>
        I (q @ neighbours c) (rv[pixel_index w c := True]) (grow b c)"
  shows "I [] rv' b'"
  using assms
proof (induction visited w h q rv b rule: region_loop.induct)
  case (1 visited w h region_visited b)
  then show ?case by simp
next
  case (2 visited w h c queue rv b)
  note skip' = "2.prems"(3) and mark' = "2.prems"(4)
  let ?i = "pixel_index w c"
  consider
    (a) "\<not> in_range w h c"
    | (b) "\<not> \<not> in_range w h c" "\<not> length visited \<le> ?i" "visited ! ?i"
    | (c) "\<not> \<not> in_range w h c" "\<not> length visited \<le> ?i" "\<not> visited ! ?i"
        "\<not> length rv \<le> ?i" "rv ! ?i"
    | (d) "\<not> \<not> in_range w h c" "\<not> length visited \<le> ?i" "\<not> visited ! ?i"
        "\<not> length rv \<le> ?i" "\<not> rv ! ?i"
    | (e) "in_range w h c" "length visited \<le> ?i"
    | (f) "in_range w h c" "\<not> length visited \<le> ?i" "\<not> visited ! ?i" "length rv \<le> ?i"
    by fastforce
  then show ?case
  proof cases
    case a
    then have run: "region_loop visited w h queue rv b = Some (rv', b')"
      using "2.prems"(1) by simp
    have "I queue rv b" by (rule skip' [OF "2.prems"(2)]) (simp add: a)
    from "2.IH"(1) [OF a run this skip' mark'] show ?thesis .
  next
    case b
    then have run: "region_loop visited w h queue rv b = Some (rv', b')"
      using "2.prems"(1) by simp
    have "I queue rv b" by (rule skip' [OF "2.prems"(2)]) (use b in simp)
    from "2.IH"(2) [OF b run this skip' mark'] show ?thesis .
  next
    case c
    then have run: "region_loop visited w h queue rv b = Some (rv', b')"
      using "2.prems"(1) by simp
    have "I queue rv b" by (rule skip' [OF "2.prems"(2)]) (use c in simp)
    from "2.IH"(3) [OF c run this skip' mark'] show ?thesis .
  next
    case d
    then have run: "region_loop visited w h (queue @ neighbours c) (rv[?i := True]) (grow b c)
        = Some (rv', b')"
      using "2.prems"(1) by simp
    have "I (queue @ neighbours c) (rv[?i := True]) (grow b c)"
      by (rule mark' [OF "2.prems"(2)]) (use d in simp_all)
    from "2.IH"(4) [OF d run this skip' mark'] show ?thesis .
  next
    case e
    with "2.prems"(1) show ?thesis by simp
  next
    case f
    with "2.prems"(1) show ?thesis by simp
  qed
qed

lemma region_loop_total:
  "w * h \<le> length visited \<Longrightarrow> w * h \<le> length rv \<Longrightarrow>
     \<exists>r. region_loop visited w h q rv b = Some r"
proof (induction visited w h q rv b rule: region_loop.induct)
  case (1 visited w h region_visited b)
  have "region_loop visited w h [] region_visited b = Some (region_visited, b)" by simp
  then show ?case by blast
next
  case (2 visited w h c queue rv b)
  show ?case
  proof (cases "in_range w h c")
    case True
    from pixel_index_less [OF True] "2.prems"
    have "pixel_index w c < length visited" "pixel_index w c < length rv" by simp_all
    with True 2 show ?thesis by simp
  next
    case False
    with 2 show ?thesis by simp
  qed
qed


definition inside_bounds :: "bounds \<Rightarrow> int \<times> int \<Rightarrow> bool" where
  "inside_bounds b c =
     (case b of (min_x, min_y, max_x, max_y, region_pixels) \<Rightarrow> case c of (cx, cy) \<Rightarrow>
        min_x \<le> cx \<and> cx \<le> max_x \<and> min_y \<le> cy \<and> cy \<le> max_y)"

definition bounds_in_sheet :: "nat \<Rightarrow> nat \<Rightarrow> bounds \<Rightarrow> bool" where
  "bounds_in_sheet w h b =
     (case b of (min_x, min_y, max_x, max_y, region_pixels) \<Rightarrow>
        0 \<le> min_x \<and> min_x \<le> max_x \<and> max_x < int w \<and>
        0 \<le> min_y \<and> min_y \<le> max_y \<and> max_y < int h)"

definition bounds_count :: "bounds \<Rightarrow> int" where
  "bounds_count b = (case b of (min_x, min_y, max_x, max_y, region_pixels) \<Rightarrow> region_pixels)"

lemma inside_bounds_grow: "inside_bounds (grow b c) c" "inside_bounds b d \<Longrightarrow> inside_bounds (grow b c) d"
  by (auto simp: inside_bounds_def grow_def split: prod.splits)

lemma bounds_in_sheet_grow:
  "bounds_in_sheet w h b \<Longrightarrow> in_range w h c \<Longrightarrow> bounds_in_sheet w h (grow b c)"
  by (auto simp: bounds_in_sheet_def grow_def in_range_def split: prod.splits)

lemma bounds_count_grow: "bounds_count (grow b c) = bounds_count b + 1"
  by (simp add: bounds_count_def grow_def split: prod.splits)

lemma update_True_nth: "i < length v \<Longrightarrow> v[i := True] ! k = (k = i \<or> v ! k)"
  by (auto simp: nth_list_update)

lemma newly_marked_set:
  "set (newly_marked rv rv') = {i. i < length rv \<and> rv' ! i \<and> \<not> rv ! i}"
  by (auto simp: newly_marked_def)

lemma newly_marked_distinct: "distinct (newly_marked rv rv')"
  by (simp add: newly_marked_def)

lemma newly_marked_length:
  "length (newly_marked rv rv') = card {i. i < length rv \<and> rv' ! i \<and> \<not> rv ! i}"
  using distinct_card [OF newly_marked_distinct, of rv rv'] by (simp add: newly_marked_set)

lemma newly_marked_update:
  assumes "i < length rv0" "length rv = length rv0" "\<not> rv ! i" "\<not> rv0 ! i"
  shows "length (newly_marked rv0 (rv[i := True])) = Suc (length (newly_marked rv0 rv))"
proof -
  let ?A = "{j. j < length rv0 \<and> rv ! j \<and> \<not> rv0 ! j}"
  have "{j. j < length rv0 \<and> rv[i := True] ! j \<and> \<not> rv0 ! j} = insert i ?A"
    using assms by (auto simp: update_True_nth)
  moreover have "finite ?A" "i \<notin> ?A" using assms by simp_all
  ultimately show ?thesis unfolding newly_marked_length by simp
qed

lemma region_loop_mask:
  assumes run: "region_loop visited w h q rv0 b0 = Some (rv', b')"
  shows "length rv' = length rv0"
    and "i < length rv0 \<Longrightarrow> rv0 ! i \<Longrightarrow> rv' ! i"
    and "i < length rv0 \<Longrightarrow> rv' ! i \<Longrightarrow> \<not> rv0 ! i \<Longrightarrow> i < length visited \<and> \<not> visited ! i"
    and "bounds_count b' = bounds_count b0 + int (length (newly_marked rv0 rv'))"
proof -
  define J where "J = (\<lambda>(q :: (int \<times> int) list) rv b.
     length rv = length rv0 \<and> (\<forall>i<length rv0. rv0 ! i \<longrightarrow> rv ! i) \<and>
     (\<forall>i<length rv0. rv ! i \<longrightarrow> \<not> rv0 ! i \<longrightarrow> i < length visited \<and> \<not> visited ! i) \<and>
     bounds_count b = bounds_count b0 + int (length (newly_marked rv0 rv)))"
  have nm0: "newly_marked rv0 rv0 = []" by (simp add: newly_marked_def)
  have init: "J q rv0 b0" unfolding J_def by (simp add: nm0)
  have skip: "J q rv b" if "J (c # q) rv b" for c q rv b
    using that unfolding J_def by simp
  have mark: "J (q @ neighbours c) (rv[pixel_index w c := True]) (grow b c)"
    if j: "J (c # q) rv b" and lv: "pixel_index w c < length visited"
      and nv: "\<not> visited ! pixel_index w c" and l: "pixel_index w c < length rv"
      and n: "\<not> rv ! pixel_index w c" for c q rv b
  proof -
    let ?i = "pixel_index w c"
    from j have j1: "length rv = length rv0" and j2: "\<And>i. i < length rv0 \<Longrightarrow> rv0 ! i \<Longrightarrow> rv ! i"
      and j3: "\<And>i. i < length rv0 \<Longrightarrow> rv ! i \<Longrightarrow> \<not> rv0 ! i \<Longrightarrow>
                   i < length visited \<and> \<not> visited ! i"
      and j4: "bounds_count b = bounds_count b0 + int (length (newly_marked rv0 rv))"
      unfolding J_def by blast+
    have l0: "?i < length rv0" using l j1 by simp
    have n0: "\<not> rv0 ! ?i" using j2 [OF l0] n by blast
    have a: "\<forall>i<length rv0. rv0 ! i \<longrightarrow> rv[?i := True] ! i"
      using j2 by (simp add: update_True_nth [OF l])
    have b: "\<forall>i<length rv0. rv[?i := True] ! i \<longrightarrow> \<not> rv0 ! i \<longrightarrow>
        i < length visited \<and> \<not> visited ! i"
      using j3 lv nv by (auto simp: update_True_nth [OF l])
    have c: "bounds_count (grow b c) =
        bounds_count b0 + int (length (newly_marked rv0 (rv[?i := True])))"
      unfolding bounds_count_grow j4 newly_marked_update [OF l0 j1 n n0] by simp
    show ?thesis unfolding J_def using j1 a b c by simp
  qed
  have "J [] rv' b'"
    by (rule region_loop_invariant [where I = J, OF run init])
      (erule skip, erule mark, assumption+)
  then have r1: "length rv' = length rv0" and r2: "\<And>i. i < length rv0 \<Longrightarrow> rv0 ! i \<Longrightarrow> rv' ! i"
    and r3: "\<And>i. i < length rv0 \<Longrightarrow> rv' ! i \<Longrightarrow> \<not> rv0 ! i \<Longrightarrow>
                 i < length visited \<and> \<not> visited ! i"
    and r4: "bounds_count b' = bounds_count b0 + int (length (newly_marked rv0 rv'))"
    unfolding J_def by blast+
  show "length rv' = length rv0" by (rule r1)
  show "i < length rv0 \<Longrightarrow> rv0 ! i \<Longrightarrow> rv' ! i" by (rule r2)
  show "i < length rv0 \<Longrightarrow> rv' ! i \<Longrightarrow> \<not> rv0 ! i \<Longrightarrow> i < length visited \<and> \<not> visited ! i"
    by (rule r3)
  show "bounds_count b' = bounds_count b0 + int (length (newly_marked rv0 rv'))" by (rule r4)
qed

lemma region_loop_bounds:
  assumes run: "region_loop visited w h q rv0 b0 = Some (rv', b')"
  shows "in_range w h c \<Longrightarrow> pixel_index w c < length rv0 \<Longrightarrow> rv' ! pixel_index w c \<Longrightarrow>
           \<not> rv0 ! pixel_index w c \<Longrightarrow> inside_bounds b' c"
    and "inside_bounds b0 c \<Longrightarrow> inside_bounds b' c"
    and "bounds_in_sheet w h b0 \<Longrightarrow> bounds_in_sheet w h b'"
proof -
  define J where "J = (\<lambda>(q :: (int \<times> int) list) rv b.
     (\<forall>c. in_range w h c \<longrightarrow> pixel_index w c < length rv0 \<longrightarrow> rv ! pixel_index w c \<longrightarrow>
          \<not> rv0 ! pixel_index w c \<longrightarrow> inside_bounds b c) \<and>
     (\<forall>c. inside_bounds b0 c \<longrightarrow> inside_bounds b c) \<and>
     (bounds_in_sheet w h b0 \<longrightarrow> bounds_in_sheet w h b))"
  have init: "J q rv0 b0" unfolding J_def by simp
  have skip: "J q rv b" if "J (c # q) rv b" for c q rv b
    using that unfolding J_def by simp
  have mark: "J (q @ neighbours c) (rv[pixel_index w c := True]) (grow b c)"
    if j: "J (c # q) rv b" and r: "in_range w h c" and l: "pixel_index w c < length rv"
    for c q rv b
  proof -
    let ?i = "pixel_index w c"
    from j have j1: "\<And>d. in_range w h d \<Longrightarrow> pixel_index w d < length rv0 \<Longrightarrow>
          rv ! pixel_index w d \<Longrightarrow> \<not> rv0 ! pixel_index w d \<Longrightarrow> inside_bounds b d"
      and j2: "\<And>d. inside_bounds b0 d \<Longrightarrow> inside_bounds b d"
      and j3: "bounds_in_sheet w h b0 \<Longrightarrow> bounds_in_sheet w h b"
      unfolding J_def by blast+
    have a: "inside_bounds (grow b c) d"
      if "in_range w h d" "pixel_index w d < length rv0" "rv[?i := True] ! pixel_index w d"
        "\<not> rv0 ! pixel_index w d" for d
    proof (cases "pixel_index w d = ?i")
      case True
      from pixel_index_inj [OF that(1) r True] show ?thesis
        by (simp add: inside_bounds_grow(1))
    next
      case False
      with that(3) have "rv ! pixel_index w d" by (simp add: update_True_nth [OF l])
      from j1 [OF that(1,2) this that(4)] show ?thesis by (rule inside_bounds_grow(2))
    qed
    have b: "inside_bounds (grow b c) d" if "inside_bounds b0 d" for d
      using j2 [OF that] by (rule inside_bounds_grow(2))
    have c: "bounds_in_sheet w h (grow b c)" if "bounds_in_sheet w h b0"
      using j3 [OF that] r by (rule bounds_in_sheet_grow)
    show ?thesis unfolding J_def using a b c by blast
  qed
  have "J [] rv' b'"
    by (rule region_loop_invariant [where I = J, OF run init])
      (erule skip, erule mark, assumption+)
  then have r1: "\<And>d. in_range w h d \<Longrightarrow> pixel_index w d < length rv0 \<Longrightarrow>
          rv' ! pixel_index w d \<Longrightarrow> \<not> rv0 ! pixel_index w d \<Longrightarrow> inside_bounds b' d"
    and r2: "\<And>d. inside_bounds b0 d \<Longrightarrow> inside_bounds b' d"
    and r3: "bounds_in_sheet w h b0 \<Longrightarrow> bounds_in_sheet w h b'"
    unfolding J_def by blast+
  show "in_range w h c \<Longrightarrow> pixel_index w c < length rv0 \<Longrightarrow> rv' ! pixel_index w c \<Longrightarrow>
           \<not> rv0 ! pixel_index w c \<Longrightarrow> inside_bounds b' c" by (rule r1)
  show "inside_bounds b0 c \<Longrightarrow> inside_bounds b' c" by (rule r2)
  show "bounds_in_sheet w h b0 \<Longrightarrow> bounds_in_sheet w h b'" by (rule r3)
qed

lemma region_loop_first:
  assumes run: "region_loop visited w h (c # q) rv0 b0 = Some (rv', b')"
    and r: "in_range w h c" and lv: "pixel_index w c < length visited"
    and nv: "\<not> visited ! pixel_index w c" and l: "pixel_index w c < length rv0"
  shows "rv' ! pixel_index w c"
proof (cases "rv0 ! pixel_index w c")
  case True
  from region_loop_mask(2) [OF run l True] show ?thesis .
next
  case False
  let ?i = "pixel_index w c"
  from run r lv nv l False
  have run': "region_loop visited w h (q @ neighbours c) (rv0[?i := True]) (grow b0 c) = Some (rv', b')"
    by simp
  have "?i < length (rv0[?i := True])" "rv0[?i := True] ! ?i" using l by simp_all
  from region_loop_mask(2) [OF run' this] show ?thesis .
qed


definition touches :: "(int \<times> int \<Rightarrow> bool) \<Rightarrow> bounds \<Rightarrow> bool" where
  "touches N b =
     (case b of (min_x, min_y, max_x, max_y, region_pixels) \<Rightarrow>
        (\<exists>c. N c \<and> fst c = min_x) \<and> (\<exists>c. N c \<and> snd c = min_y) \<and>
        (\<exists>c. N c \<and> fst c = max_x) \<and> (\<exists>c. N c \<and> snd c = max_y))"

lemma touches_mono: "touches N b \<Longrightarrow> (\<And>c. N c \<Longrightarrow> N' c) \<Longrightarrow> touches N' b"
  unfolding touches_def by (cases b) (simp, blast)

lemma touches_grow:
  assumes "touches N b" "N c"
  shows "touches N (grow b c)"
proof -
  obtain x0 y0 x1 y1 n where b: "b = (x0, y0, x1, y1, n)" by (cases b)
  obtain cx cy where c: "c = (cx, cy)" by (cases c)
  from assms(1) obtain d1 d2 d3 d4 where
    d: "N d1" "fst d1 = x0" "N d2" "snd d2 = y0" "N d3" "fst d3 = x1" "N d4" "snd d4 = y1"
    unfolding touches_def b by (simp only: prod.case) blast
  have fc: "fst c = cx" "snd c = cy" using c by simp_all
  have 1: "\<exists>e. N e \<and> fst e = min x0 cx"
  proof (cases "x0 \<le> cx")
    case True
    then have "min x0 cx = fst d1" using d(2) by simp
    with d(1) show ?thesis by (intro exI [of _ d1]) simp
  next
    case False
    then have "min x0 cx = fst c" using fc by simp
    with assms(2) show ?thesis by (intro exI [of _ c]) simp
  qed
  have 2: "\<exists>e. N e \<and> snd e = min y0 cy"
  proof (cases "y0 \<le> cy")
    case True
    then have "min y0 cy = snd d2" using d(4) by simp
    with d(3) show ?thesis by (intro exI [of _ d2]) simp
  next
    case False
    then have "min y0 cy = snd c" using fc by simp
    with assms(2) show ?thesis by (intro exI [of _ c]) simp
  qed
  have 3: "\<exists>e. N e \<and> fst e = max x1 cx"
  proof (cases "x1 \<le> cx")
    case True
    then have "max x1 cx = fst c" using fc by simp
    with assms(2) show ?thesis by (intro exI [of _ c]) simp
  next
    case False
    then have "max x1 cx = fst d3" using d(6) by simp
    with d(5) show ?thesis by (intro exI [of _ d3]) simp
  qed
  have 4: "\<exists>e. N e \<and> snd e = max y1 cy"
  proof (cases "y1 \<le> cy")
    case True
    then have "max y1 cy = snd c" using fc by simp
    with assms(2) show ?thesis by (intro exI [of _ c]) simp
  next
    case False
    then have "max y1 cy = snd d4" using d(8) by simp
    with d(7) show ?thesis by (intro exI [of _ d4]) simp
  qed
  from 1 2 3 4 show ?thesis unfolding touches_def grow_def b c by simp
qed

lemma region_loop_touches:
  assumes run: "region_loop visited w h q rv0 b0 = Some (rv', b')"
    and t0: "touches N0 b0"
  shows "touches (\<lambda>d. N0 d \<or> (in_range w h d \<and> pixel_index w d < length rv0 \<and>
            rv' ! pixel_index w d \<and> \<not> rv0 ! pixel_index w d)) b'"
proof -
  define new where "new = (\<lambda>rv d. N0 d \<or> (in_range w h d \<and> pixel_index w d < length rv0 \<and>
            rv ! pixel_index w d \<and> \<not> rv0 ! pixel_index w d))"
  define J where "J = (\<lambda>(q :: (int \<times> int) list) rv b.
     length rv = length rv0 \<and> (\<forall>i<length rv0. rv0 ! i \<longrightarrow> rv ! i) \<and> touches (new rv) b)"
  have init: "J q rv0 b0" unfolding J_def
    using touches_mono [OF t0, of "new rv0"] by (simp add: new_def)
  have skip: "J q rv b" if "J (c # q) rv b" for c q rv b
    using that unfolding J_def by simp
  have mark: "J (q @ neighbours c) (rv[pixel_index w c := True]) (grow b c)"
    if j: "J (c # q) rv b" and r: "in_range w h c" and l: "pixel_index w c < length rv"
      and n: "\<not> rv ! pixel_index w c" for c q rv b
  proof -
    let ?i = "pixel_index w c"
    let ?rv = "rv[?i := True]"
    from j have j1: "length rv = length rv0" and j2: "\<And>i. i < length rv0 \<Longrightarrow> rv0 ! i \<Longrightarrow> rv ! i"
      and j3: "touches (new rv) b"
      unfolding J_def by blast+
    have l0: "?i < length rv0" using l j1 by simp
    have n0: "\<not> rv0 ! ?i" using j2 [OF l0] n by blast
    have a: "\<forall>i<length rv0. rv0 ! i \<longrightarrow> ?rv ! i"
      using j2 by (simp add: update_True_nth [OF l])
    have "touches (new ?rv) b"
      by (rule touches_mono [OF j3]) (auto simp: new_def update_True_nth [OF l])
    moreover have "new ?rv c" unfolding new_def using r l0 n0 l by simp
    ultimately have "touches (new ?rv) (grow b c)" by (rule touches_grow)
    then show ?thesis unfolding J_def using j1 a by simp
  qed
  have "J [] rv' b'"
    by (rule region_loop_invariant [where I = J, OF run init])
      (erule skip, erule mark, assumption+)
  then show ?thesis unfolding J_def new_def by blast
qed


definition good_component :: "nat \<Rightarrow> nat \<Rightarrow> component \<Rightarrow> bool" where
  "good_component w h cp =
     (case cp of (b, pix) \<Rightarrow>
        pix \<noteq> [] \<and> distinct pix \<and> bounds_count b = int (length pix) \<and>
        bounds_in_sheet w h b \<and>
        (\<forall>c. in_range w h c \<longrightarrow> pixel_index w c \<in> set pix \<longrightarrow> inside_bounds b c) \<and>
        touches (\<lambda>c. in_range w h c \<and> pixel_index w c \<in> set pix) b)"

definition comp_inv :: "bool list \<Rightarrow> nat \<Rightarrow> nat \<Rightarrow> component list \<Rightarrow> bool list \<Rightarrow> bool" where
  "comp_inv visited w h comps rv =
     (length rv = w * h \<and>
      (\<forall>i<w * h. rv ! i \<longrightarrow> \<not> visited ! i) \<and>
      (\<forall>i<w * h. rv ! i \<longrightarrow> (\<exists>!k. k < length comps \<and> i \<in> set (snd (comps ! k)))) \<and>
      (\<forall>k<length comps. \<forall>i\<in>set (snd (comps ! k)). i < w * h \<and> rv ! i) \<and>
      (\<forall>k<length comps. good_component w h (comps ! k)))"

lemma comp_inv_init: "comp_inv visited w h [] (replicate (w * h) False)"
  by (simp add: comp_inv_def)

lemma collect_step_inv:
  assumes lv: "length visited = w * h" and inv: "comp_inv visited w h comps rv"
    and r: "in_range w h c"
  shows "\<exists>comps' rv'. collect_step visited w h c (comps, rv) = Some (comps', rv') \<and>
           comp_inv visited w h comps' rv' \<and> (\<forall>i<w * h. rv ! i \<longrightarrow> rv' ! i) \<and>
           (visited ! pixel_index w c \<or> rv' ! pixel_index w c)"
proof -
  let ?i = "pixel_index w c"
  from inv have i1: "length rv = w * h"
    and iA: "\<And>i. i < w * h \<Longrightarrow> rv ! i \<Longrightarrow> \<not> visited ! i"
    and iB: "\<And>i. i < w * h \<Longrightarrow> rv ! i \<Longrightarrow> \<exists>!k. k < length comps \<and> i \<in> set (snd (comps ! k))"
    and iC: "\<And>k i. k < length comps \<Longrightarrow> i \<in> set (snd (comps ! k)) \<Longrightarrow> i < w * h \<and> rv ! i"
    and iD: "\<And>k. k < length comps \<Longrightarrow> good_component w h (comps ! k)"
    unfolding comp_inv_def by blast+
  have il: "?i < w * h" by (rule pixel_index_less [OF r])
  show ?thesis
  proof (cases "visited ! ?i \<or> rv ! ?i")
    case True
    then have "collect_step visited w h c (comps, rv) = Some (comps, rv)"
      using il lv i1 by (auto simp: collect_step_def)
    with inv True show ?thesis by simp
  next
    case False
    then have nv: "\<not> visited ! ?i" and nr: "\<not> rv ! ?i" by simp_all
    obtain x y where c: "c = (x, y)" by (cases c)
    let ?b0 = "(x, y, x, y, 0) :: bounds"
    from region_loop_total [of w h visited rv "[c]" ?b0] lv i1
    obtain rv' b' where run: "region_loop visited w h [c] rv ?b0 = Some (rv', b')"
      by fastforce
    let ?pix = "newly_marked rv rv'"
    have cs: "collect_step visited w h c (comps, rv) = Some (comps @ [(b', ?pix)], rv')"
      using il lv i1 nv nr run unfolding collect_step_def c by simp
    note m1 = region_loop_mask(1) [OF run] and m2 = region_loop_mask(2) [OF run]
      and m3 = region_loop_mask(3) [OF run] and m4 = region_loop_mask(4) [OF run]
    have l': "length rv' = w * h" using m1 i1 by simp
    have mono: "rv' ! i" if "i < w * h" "rv ! i" for i
      using m2 [of i] that i1 by simp
    have first: "rv' ! ?i"
      by (rule region_loop_first [OF run r]) (use il lv i1 nv in simp_all)
    have sp: "set ?pix = {i. i < w * h \<and> rv' ! i \<and> \<not> rv ! i}"
      unfolding newly_marked_set i1 ..
    have ip: "?i \<in> set ?pix" unfolding sp using il first nr by simp
    have A: "\<not> visited ! i" if "i < w * h" "rv' ! i" for i
    proof (cases "rv ! i")
      case True
      from iA [OF that(1) True] show ?thesis .
    next
      case False
      from m3 [of i] that False i1 show ?thesis by simp
    qed
    let ?comps = "comps @ [(b', ?pix)]"
    have old: "snd (?comps ! k) = snd (comps ! k)" if "k < length comps" for k
      using that by (simp add: nth_append)
    have new: "snd (?comps ! length comps) = ?pix" by simp
    have B: "\<exists>!k. k < length ?comps \<and> i \<in> set (snd (?comps ! k))" if "i < w * h" "rv' ! i" for i
    proof (cases "rv ! i")
      case True
      from iB [OF that(1) True] obtain k where
        k: "k < length comps" "i \<in> set (snd (comps ! k))"
        and u: "\<And>k'. k' < length comps \<Longrightarrow> i \<in> set (snd (comps ! k')) \<Longrightarrow> k' = k"
        by blast
      have np: "i \<notin> set ?pix" unfolding sp using True by simp
      show ?thesis
      proof (rule ex1I [of _ k])
        show "k < length ?comps \<and> i \<in> set (snd (?comps ! k))"
          using k old [OF k(1)] by simp
      next
        fix k' assume a: "k' < length ?comps \<and> i \<in> set (snd (?comps ! k'))"
        show "k' = k"
        proof (cases "k' < length comps")
          case True
          with a old [OF True] u show ?thesis by simp
        next
          case False
          with a have "k' = length comps" by simp
          with a np new show ?thesis by simp
        qed
      qed
    next
      case False
      have inp: "i \<in> set ?pix" unfolding sp using that False by simp
      show ?thesis
      proof (rule ex1I [of _ "length comps"])
        show "length comps < length ?comps \<and> i \<in> set (snd (?comps ! length comps))"
          using inp by simp
      next
        fix k' assume a: "k' < length ?comps \<and> i \<in> set (snd (?comps ! k'))"
        show "k' = length comps"
        proof (cases "k' < length comps")
          case True
          with a old [OF True] have "i \<in> set (snd (comps ! k'))" by simp
          from iC [OF True this] False show ?thesis by simp
        next
          case False
          with a show ?thesis by simp
        qed
      qed
    qed
    have C: "i < w * h \<and> rv' ! i" if "k < length ?comps" "i \<in> set (snd (?comps ! k))" for k i
    proof (cases "k < length comps")
      case True
      with that old [OF True] have "i \<in> set (snd (comps ! k))" by simp
      from iC [OF True this] mono show ?thesis by simp
    next
      case False
      with that have "k = length comps" by simp
      with that(2) have "i \<in> set ?pix" by simp
      then show ?thesis unfolding sp by simp
    qed
    have b0s: "bounds_in_sheet w h ?b0"
      using r unfolding c by (simp add: bounds_in_sheet_def in_range_def)
    have t0: "touches (\<lambda>d. d = c) ?b0"
      unfolding touches_def c by simp
    have gnew: "good_component w h (b', ?pix)"
    proof -
      have 1: "?pix \<noteq> []" using ip by auto
      have 2: "distinct ?pix" by (rule newly_marked_distinct)
      have 3: "bounds_count b' = int (length ?pix)"
        using m4 by (simp add: bounds_count_def)
      have 4: "bounds_in_sheet w h b'" by (rule region_loop_bounds(3) [OF run b0s])
      have 5: "inside_bounds b' d" if "in_range w h d" "pixel_index w d \<in> set ?pix" for d
        by (rule region_loop_bounds(1) [OF run that(1)]) (use that(2) i1 in \<open>simp_all add: sp\<close>)
      have 6: "touches (\<lambda>c. in_range w h c \<and> pixel_index w c \<in> set ?pix) b'"
      proof (rule touches_mono [OF region_loop_touches [OF run t0]])
        fix d
        assume "d = c \<or> (in_range w h d \<and> pixel_index w d < length rv \<and>
            rv' ! pixel_index w d \<and> \<not> rv ! pixel_index w d)"
        then show "in_range w h d \<and> pixel_index w d \<in> set ?pix"
          using r ip unfolding sp i1 by auto
      qed
      from 1 2 3 4 5 6 show ?thesis unfolding good_component_def by simp
    qed
    have D: "good_component w h (?comps ! k)" if "k < length ?comps" for k
    proof (cases "k < length comps")
      case True
      with iD [OF True] show ?thesis by (simp add: nth_append)
    next
      case False
      with that have "k = length comps" by simp
      with gnew show ?thesis by simp
    qed
    have "comp_inv visited w h ?comps rv'"
      unfolding comp_inv_def using l' A B C D by blast
    with cs mono first show ?thesis by blast
  qed
qed


lemma collect_inv:
  assumes lv: "length visited = w * h"
  shows "\<forall>c\<in>set cs. in_range w h c \<Longrightarrow> comp_inv visited w h comps rv \<Longrightarrow>
     \<exists>comps' rv'. collect visited w h cs (comps, rv) = Some (comps', rv') \<and>
        comp_inv visited w h comps' rv' \<and> (\<forall>i<w * h. rv ! i \<longrightarrow> rv' ! i) \<and>
        (\<forall>c\<in>set cs. visited ! pixel_index w c \<or> rv' ! pixel_index w c)"
proof (induction cs arbitrary: comps rv)
  case Nil
  then show ?case by simp
next
  case (Cons c cs)
  from Cons.prems(1) have r: "in_range w h c" and rs: "\<forall>c\<in>set cs. in_range w h c" by simp_all
  from collect_step_inv [OF lv Cons.prems(2) r] obtain comps1 rv1 where
    s: "collect_step visited w h c (comps, rv) = Some (comps1, rv1)"
    and i1: "comp_inv visited w h comps1 rv1"
    and m1: "\<And>i. i < w * h \<Longrightarrow> rv ! i \<Longrightarrow> rv1 ! i"
    and p1: "visited ! pixel_index w c \<or> rv1 ! pixel_index w c"
    by blast
  from Cons.IH [OF rs i1] obtain comps' rv' where
    t: "collect visited w h cs (comps1, rv1) = Some (comps', rv')"
    and i2: "comp_inv visited w h comps' rv'"
    and m2: "\<And>i. i < w * h \<Longrightarrow> rv1 ! i \<Longrightarrow> rv' ! i"
    and p2: "\<And>d. d \<in> set cs \<Longrightarrow> visited ! pixel_index w d \<or> rv' ! pixel_index w d"
    by blast
  have run: "collect visited w h (c # cs) (comps, rv) = Some (comps', rv')"
    using s t by simp
  have m: "\<forall>i<w * h. rv ! i \<longrightarrow> rv' ! i" using m1 m2 by blast
  have pc: "visited ! pixel_index w c \<or> rv' ! pixel_index w c"
    using p1 m2 [OF pixel_index_less [OF r]] by blast
  have p: "\<forall>d\<in>set (c # cs). visited ! pixel_index w d \<or> rv' ! pixel_index w d"
    using pc p2 by simp
  from run i2 m p show ?case by blast
qed

lemma scan_positions_in_range: "c \<in> set (scan_positions w h) \<Longrightarrow> in_range w h c"
  by (auto simp: scan_positions_def in_range_def)

lemma scan_positions_cover:
  assumes "i < w * h"
  shows "\<exists>c\<in>set (scan_positions w h). pixel_index w c = i"
proof -
  have w0: "0 < w" using assms by (cases w) simp_all
  let ?x = "i mod w" and ?y = "i div w"
  have x: "?x < w" using w0 by simp
  have y: "?y < h" using assms w0 by (simp add: less_mult_imp_div_less mult.commute)
  have "(int ?x, int ?y) \<in> set (map (\<lambda>x. (int x, int ?y)) [0..<w])" using x by simp
  moreover have "map (\<lambda>x. (int x, int ?y)) [0..<w] \<in> set (map (\<lambda>y. map (\<lambda>x. (int x, int y)) [0..<w]) [0..<h])"
    unfolding set_map by (rule imageI) (simp add: y)
  ultimately have m: "(int ?x, int ?y) \<in> set (scan_positions w h)"
    unfolding scan_positions_def set_concat by (rule UN_I [rotated])
  have "?y * w + ?x = i" by simp
  then have "int ?y * int w + int ?x = int i"
    by (metis of_nat_add of_nat_mult)
  then have "pixel_index w (int ?x, int ?y) = i" unfolding pixel_index_def by simp
  with m show ?thesis by blast
qed

definition proj_regions :: "int \<Rightarrow> component list \<Rightarrow> region list" where
  "proj_regions min_size comps = map to_region (filter (keeps min_size) (map fst comps))"

lemma scan_step_collect_step:
  "scan_step visited w h min_size c (proj_regions min_size comps, rv) =
     map_option (\<lambda>(comps', rv'). (proj_regions min_size comps', rv'))
       (collect_step visited w h c (comps, rv))"
  by (auto simp: scan_step_def collect_step_def proj_regions_def split: prod.splits option.splits)

lemma scan_collect:
  "scan visited w h min_size cs (proj_regions min_size comps, rv) =
     map_option (\<lambda>(comps', rv'). (proj_regions min_size comps', rv'))
       (collect visited w h cs (comps, rv))"
proof (induction cs arbitrary: comps rv)
  case Nil
  then show ?case by simp
next
  case (Cons c cs)
  show ?case
  proof (cases "collect_step visited w h c (comps, rv)")
    case None
    with scan_step_collect_step [of visited w h min_size c comps rv] show ?thesis by simp
  next
    case (Some s)
    obtain comps1 rv1 where s: "s = (comps1, rv1)" by (cases s)
    from Some scan_step_collect_step [of visited w h min_size c comps rv]
    have "scan_step visited w h min_size c (proj_regions min_size comps, rv) =
        Some (proj_regions min_size comps1, rv1)" unfolding s by simp
    with Some Cons.IH [of comps1 rv1] show ?thesis unfolding s by simp
  qed
qed

lemma find_sprite_regions_collected:
  "find_sprite_regions visited w h min_size =
     map_option (proj_regions min_size) (collected_components visited w h)"
proof -
  have e: "([] :: region list) = proj_regions min_size []" by (simp add: proj_regions_def)
  show ?thesis
    unfolding find_sprite_regions_def collected_components_def
    by (subst e, subst scan_collect) (simp add: option.map_comp comp_def split_def)
qed

lemma collected_components_inv:
  assumes lv: "length visited = w * h"
  shows "\<exists>comps rv. collected_components visited w h = Some comps \<and>
     comp_inv visited w h comps rv \<and> (\<forall>i<w * h. visited ! i \<or> rv ! i)"
proof -
  from collect_inv [OF lv, of "scan_positions w h" "[]" "replicate (w * h) False"]
    scan_positions_in_range comp_inv_init
  obtain comps rv where
    run: "collect visited w h (scan_positions w h) ([], replicate (w * h) False) = Some (comps, rv)"
    and inv: "comp_inv visited w h comps rv"
    and p: "\<And>c. c \<in> set (scan_positions w h) \<Longrightarrow> visited ! pixel_index w c \<or> rv ! pixel_index w c"
    by blast
  have cov: "visited ! i \<or> rv ! i" if "i < w * h" for i
    using scan_positions_cover [OF that] p by blast
  have "collected_components visited w h = Some comps"
    unfolding collected_components_def run by simp
  with inv cov show ?thesis by blast
qed


lemma to_region_inj: "to_region a = to_region b \<Longrightarrow> a = b"
  by (auto simp: to_region_def split: prod.splits)

lemma keeps_iff:
  "keeps min_size b =
     (case b of (min_x, min_y, max_x, max_y, n) \<Rightarrow>
        min_size \<le> max_x - min_x + 1 \<and> min_size \<le> max_y - min_y + 1)"
  by (simp add: keeps_def Let_def split: prod.splits)

section \<open>The sprite cutter and the sheet pipeline\<close>

text \<open>
  \<open>slice_spritesheet\<close> (lines 175--220), from the decoded sheet on. Three things can
  raise: an index past the end of a mask (\<open>IndexError\<close>), the image library's
  \<open>img.crop\<close> of line 212 on a box whose right edge is left of its left edge or whose
  lower edge is above its upper edge (\<open>ValueError\<close>), and the library's \<open>sprite.save\<close>
  of line 216 on a buffer of zero width or zero height (\<open>WriterError\<close>). An exception
  ends the loop of lines 204--218: the files saved before it stay written, the regions
  after it are not processed.

  \<open>crop\<close> on a box that is not inverted gives a new buffer of the box's size holding the
  pixels of the box: pixel \<open>(x, y)\<close> of the crop is pixel \<open>(x + x1, y + y1)\<close> of the sheet.
  The result of \<open>cut_sprites\<close> is the list of buffers that \<open>sprite.save\<close> wrote, each with
  the number \<open>i + 1\<close> of its file name, and the exception that ended the loop, if any.
\<close>

datatype error = IndexError | ValueError | WriterError

definition crop :: "image \<Rightarrow> int \<times> int \<times> int \<times> int \<Rightarrow> error + image" where
  "crop img box =
     (case box of (x1, y1, x2, y2) \<Rightarrow>
        if x2 < x1 \<or> y2 < y1 then Inl ValueError
        else Inr \<lparr>size_w = nat (x2 - x1), size_h = nat (y2 - y1),
                  pixels = (\<lambda>(x, y). pixels img (x + x1, y + y1))\<rparr>)"

definition save :: "image \<Rightarrow> error option" where
  "save sprite = (if size_w sprite = 0 \<or> size_h sprite = 0 then Some WriterError else None)"

definition sort_regions :: "region list \<Rightarrow> region list" where
  "sort_regions regions = sort_key (\<lambda>r. case r of (x1, y1, x2, y2, p) \<Rightarrow> (y1 div 50, x1)) regions"


text \<open>Lines 206--213: the crop of one region and the transparency pass on it.\<close>

definition cut_sprite :: "image \<Rightarrow> region \<Rightarrow> error + image" where
  "cut_sprite img r =
     (case crop img (crop_box (size_w img) (size_h img) r) of
        Inl e \<Rightarrow> Inl e
      | Inr sprite \<Rightarrow>
          (case make_background_transparent sprite of
             None \<Rightarrow> Inl IndexError
           | Some sprite' \<Rightarrow> Inr sprite'))"

fun cut_sprites ::
  "image \<Rightarrow> nat \<Rightarrow> region list \<Rightarrow> (nat \<times> image) list \<times> error option" where
  "cut_sprites img i [] = ([], None)"
| "cut_sprites img i (r # rs) =
     (case cut_sprite img r of
        Inl e \<Rightarrow> ([], Some e)
      | Inr sprite \<Rightarrow>
          (case save sprite of
             Some e \<Rightarrow> ([], Some e)
           | None \<Rightarrow>
               (case cut_sprites img (i + 1) rs of
                  (saved, e) \<Rightarrow> ((i + 1, sprite) # saved, e))))"


definition collapsed :: "nat \<Rightarrow> nat \<Rightarrow> region \<Rightarrow> bool" where
  "collapsed w h r = (box_width (crop_box w h r) \<le> 0 \<or> box_height (crop_box w h r) \<le> 0)"

lemma inner_fold_pres:
  assumes ab: "\<And>a b. P a \<Longrightarrow> P b \<Longrightarrow> P (absorb a b)"
    and all: "\<And>j. j \<in> set js \<Longrightarrow> P (rs ! j)"
    and p0: "P acc0"
    and f: "fold (inner_step rs gap) js (acc0, used0, m0) = (acc, used, m)"
  shows "P acc"
  using all p0 f
proof (induction js arbitrary: acc0 used0 m0)
  case Nil
  then show ?case by simp
next
  case (Cons j js)
  obtain acc1 used1 m1 where s: "inner_step rs gap j (acc0, used0, m0) = (acc1, used1, m1)"
    by (metis prod_cases3)
  have pj: "P (rs ! j)" using Cons.prems(1) by simp
  have p1: "P acc1"
  proof (cases "j \<notin> used0 \<and> boxes_close gap acc0 (rs ! j)")
    case True
    with s have "acc1 = absorb acc0 (rs ! j)" by (simp add: inner_step_def)
    with ab [OF Cons.prems(2) pj] show ?thesis by simp
  next
    case False
    with s have "acc1 = acc0" by (auto simp: inner_step_def split: if_splits)
    with Cons.prems(2) show ?thesis by simp
  qed
  have f1: "fold (inner_step rs gap) js (acc1, used1, m1) = (acc, used, m)"
    using Cons.prems(3) s by simp
  show ?case
    by (rule Cons.IH [OF _ p1 f1]) (simp add: Cons.prems(1))
qed

lemma outer_fold_pres:
  assumes ab: "\<And>a b. P a \<Longrightarrow> P b \<Longrightarrow> P (absorb a b)"
    and all: "\<And>r. r \<in> set rs \<Longrightarrow> P r"
    and idx: "\<And>i. i \<in> set ks \<Longrightarrow> i < length rs"
    and p0: "\<And>r. r \<in> set new0 \<Longrightarrow> P r"
    and f: "fold (outer_step rs gap) ks (new0, used0, m0) = (new, used, m)"
  shows "\<forall>r\<in>set new. P r"
  using idx p0 f
proof (induction ks arbitrary: new0 used0 m0)
  case Nil
  then show ?case by simp
next
  case (Cons i ks)
  obtain new1 used1 m1 where s: "outer_step rs gap i (new0, used0, m0) = (new1, used1, m1)"
    by (metis prod_cases3)
  have il: "i < length rs" using Cons.prems(1) by simp
  have p1: "P r" if "r \<in> set new1" for r
  proof (cases "i \<in> used0")
    case True
    with s have "new1 = new0" by (simp add: outer_step_def)
    with that Cons.prems(2) show ?thesis by simp
  next
    case False
    obtain acc used' m' where
      inn: "fold (inner_step rs gap) [i + 1..<length rs] (rs ! i, used0, m0) = (acc, used', m')"
      by (metis prod_cases3)
    with s False have n1: "new1 = new0 @ [acc]" by (simp add: outer_step_def)
    have "P acc"
      by (rule inner_fold_pres [where P = P, OF ab _ _ inn]) (simp_all add: all il)
    moreover from that have "r \<in> set new0 \<or> r = acc" unfolding n1 by auto
    ultimately show ?thesis using Cons.prems(2) [of r] by blast
  qed
  have f1: "fold (outer_step rs gap) ks (new1, used1, m1) = (new, used, m)"
    using Cons.prems(3) s by simp
  show ?case
    by (rule Cons.IH [OF _ p1 f1]) (simp_all add: Cons.prems(1))
qed

lemma merge_pass_pres:
  assumes ab: "\<And>a b. P a \<Longrightarrow> P b \<Longrightarrow> P (absorb a b)"
    and all: "\<And>r. r \<in> set rs \<Longrightarrow> P r"
    and p: "merge_pass rs gap = (new, m)"
  shows "\<forall>r\<in>set new. P r"
proof -
  obtain used where
    f: "fold (outer_step rs gap) [0..<length rs] ([], {}, False) = (new, used, m)"
    using p by (auto simp: merge_pass_def split: prod.splits)
  show ?thesis
    by (rule outer_fold_pres [where P = P, OF ab all _ _ f]) simp_all
qed

lemma merge_loop_pres:
  assumes ab: "\<And>a b. P a \<Longrightarrow> P b \<Longrightarrow> P (absorb a b)"
  shows "(\<And>r. r \<in> set rs \<Longrightarrow> P r) \<Longrightarrow> \<forall>r\<in>set (merge_loop rs gap). P r"
proof (induction rs gap rule: merge_loop.induct)
  case (1 regions gap)
  obtain new m where p: "merge_pass regions gap = (new, m)" by (metis surj_pair)
  have pn: "P r" if "r \<in> set new" for r
    using merge_pass_pres [where P = P, OF ab "1.prems" p] that by blast
  show ?case
  proof (cases m)
    case True
    then have e: "merge_loop regions gap = merge_loop new gap"
      using p by (subst merge_loop.simps) simp
    show ?thesis unfolding e
      by (rule "1.IH" [OF p [symmetric] True pn])
  next
    case False
    then have "merge_loop regions gap = new"
      using p by (subst merge_loop.simps) simp
    with pn show ?thesis by simp
  qed
qed

lemma merge_close_regions_pres:
  assumes "\<And>a b. P a \<Longrightarrow> P b \<Longrightarrow> P (absorb a b)" and "\<And>r. r \<in> set rs \<Longrightarrow> P r"
  shows "\<forall>r\<in>set (merge_close_regions rs gap). P r"
  using merge_loop_pres [where P = P, OF assms] assms(2)
  by (simp add: merge_close_regions_def)

lemma well_formed_absorb:
  "well_formed w h a \<Longrightarrow> well_formed w h b \<Longrightarrow> well_formed w h (absorb a b)"
  by (auto simp: well_formed_def absorb_def split: prod.splits)

lemma well_formed_to_region: "bounds_in_sheet w h b \<Longrightarrow> well_formed w h (to_region b)"
  by (auto simp: well_formed_def bounds_in_sheet_def to_region_def split: prod.splits)

lemma find_sprite_regions_well_formed:
  assumes lv: "length visited = w * h"
    and f: "find_sprite_regions visited w h min_size = Some regions"
    and r: "r \<in> set regions"
  shows "well_formed w h r"
proof -
  from collected_components_inv [OF lv] obtain comps rv where
    cc: "collected_components visited w h = Some comps"
    and inv: "comp_inv visited w h comps rv"
    by blast
  from inv have iD: "\<And>k. k < length comps \<Longrightarrow> good_component w h (comps ! k)"
    unfolding comp_inv_def by blast
  from f have "regions = proj_regions min_size comps"
    unfolding find_sprite_regions_collected cc by simp
  with r obtain cp where cp: "cp \<in> set comps" "r = to_region (fst cp)"
    unfolding proj_regions_def by auto
  from cp(1) obtain k where "k < length comps" "cp = comps ! k"
    by (auto simp: in_set_conv_nth)
  with iD have "good_component w h cp" by simp
  then have "bounds_in_sheet w h (fst cp)"
    unfolding good_component_def by (cases cp) simp
  with cp(2) show ?thesis by (simp add: well_formed_to_region)
qed

lemma crop_box_well_formed:
  assumes "well_formed w h r"
  shows "0 < box_width (crop_box w h r) \<and> 0 < box_height (crop_box w h r)"
  using assms
  by (auto simp: well_formed_def crop_box_def box_width_def box_height_def Let_def
      split: prod.splits)

lemma sort_filter_subset: "set (sort_regions (artifact_filter rs)) \<subseteq> set rs"
  by (auto simp: sort_regions_def artifact_filter_def)




lemma make_background_transparent_size:
  "\<exists>out. make_background_transparent img = Some out \<and>
     size_w out = size_w img \<and> size_h out = size_h img"
proof -
  let ?w = "size_w img" and ?h = "size_h img"
  let ?v = "replicate (?w * ?h) False"
  let ?q = "edge_seeds ?w ?h"
  from flood_loop_total [of img ?v ?q] obtain mask where fl: "flood_loop img ?q ?v = Some mask"
    by auto
  from transparent_loop_mask [of ?w img ?h "pixels img" ?q ?v] fl
  have "map_option fst (transparent_loop ?w ?h ?q ?v (pixels img)) = Some mask" by simp
  then obtain px' where tr: "transparent_loop ?w ?h ?q ?v (pixels img) = Some (mask, px')"
    by auto
  have "make_background_transparent img = Some (img\<lparr>pixels := px'\<rparr>)"
    unfolding make_background_transparent_def Let_def tr by simp
  then show ?thesis by simp
qed



text \<open>
  What the loop of lines 204--218 would do with a region whose crop box has collapsed,
  if one reached it: \<open>img.crop\<close> raises on an inverted box; otherwise the crop and the
  transparency pass run on an empty buffer and \<open>sprite.save\<close> raises. Either way the loop
  ends there.
\<close>

lemma cut_sprites_collapsed_raises:
  assumes co: "collapsed (size_w img) (size_h img) r"
    and box: "crop_box (size_w img) (size_h img) r = (x1, y1, x2, y2)"
  shows "cut_sprites img i (r # rs) =
           ([], Some (if x2 < x1 \<or> y2 < y1 then ValueError else WriterError))"
proof (cases "x2 < x1 \<or> y2 < y1")
  case True
  then have "crop img (x1, y1, x2, y2) = Inl ValueError" by (simp add: crop_def)
  then have "cut_sprite img r = Inl ValueError" unfolding cut_sprite_def box by simp
  with True show ?thesis by simp
next
  case False
  let ?c = "\<lparr>size_w = nat (x2 - x1), size_h = nat (y2 - y1),
             pixels = (\<lambda>(x, y). pixels img (x + x1, y + y1))\<rparr>"
  have cr: "crop img (x1, y1, x2, y2) = Inr ?c"
    using False by (simp add: crop_def)
  from make_background_transparent_size [of ?c] obtain out where
    o: "make_background_transparent ?c = Some out"
    and sw: "size_w out = nat (x2 - x1)" and sh: "size_h out = nat (y2 - y1)"
    by auto
  have cs: "cut_sprite img r = Inr out"
    unfolding cut_sprite_def box cr using o by simp
  from co have "x2 - x1 \<le> 0 \<or> y2 - y1 \<le> 0"
    unfolding collapsed_def box by (simp add: box_width_def box_height_def)
  then have "size_w out = 0 \<or> size_h out = 0" using sw sh by auto
  then have "save out = Some WriterError" by (simp add: save_def)
  with cs False show ?thesis by simp
qed

section \<open>Example sheets\<close>

definition white :: rgba where "white = (255, 255, 255, 255)"
definition blue :: rgba where "blue = (0, 0, 255, 255)"

definition sheet1 :: image where
  "sheet1 = \<lparr>size_w = 4, size_h = 3,
             pixels = (\<lambda>p. if p \<in> {(1, 1), (2, 1), (3,0)} then blue else white)\<rparr>"


text \<open>
  A 7 by 5 sheet: a ring of artwork around the background-like pixel \<open>(2, 2)\<close>, one
  artwork pixel \<open>(6, 0)\<close> on the border, and background-like interior pixels such as
  \<open>(4, 2)\<close> that only touch the border through other background-like pixels.
\<close>

definition sheet4 :: image where
  "sheet4 = \<lparr>size_w = 7, size_h = 5,
             pixels = (\<lambda>p. if p \<in> {(1, 1), (2, 1), (3, 1), (1, 2), (3, 2), (1, 3), (2, 3), (3, 3), (6, 0)}
                          then blue else white)\<rparr>"

text \<open>
  Two lists on the 4 by 3 example sheet: a region whose crop box has zero height ends
  the loop in \<open>sprite.save\<close> before the next region is processed, and a region whose
  crop box is inverted ends it in \<open>img.crop\<close>.
\<close>

lemma cut_sprites_empty_buffer_raises:
  "crop_box 4 3 (0, 5, 4, 7, 600) = (0, 3, 4, 3) \<and>
   cut_sprites sheet1 0 [(0, 5, 4, 7, 600), (1, 1, 3, 2, 600)] = ([], Some WriterError)"
proof -
  have sz: "size_w sheet1 = 4" "size_h sheet1 = 3" by (simp_all add: sheet1_def)
  have cb: "crop_box 4 3 (0, 5, 4, 7, 600) = (0, 3, 4, 3)" by (simp add: crop_box_def)
  have co: "collapsed 4 3 (0, 5, 4, 7, 600)"
    unfolding collapsed_def cb by (simp add: box_height_def)
  from cut_sprites_collapsed_raises [of sheet1 _ 0 3 4 3 0, unfolded sz, OF co cb] cb
  show ?thesis by simp
qed

lemma cut_sprites_inverted_box_raises:
  "crop_box 4 3 (10, 0, 12, 3, 600) = (8, 0, 4, 3) \<and>
   cut_sprites sheet1 0 [(10, 0, 12, 3, 600)] = ([], Some ValueError)"
proof -
  have sz: "size_w sheet1 = 4" "size_h sheet1 = 3" by (simp_all add: sheet1_def)
  have cb: "crop_box 4 3 (10, 0, 12, 3, 600) = (8, 0, 4, 3)" by (simp add: crop_box_def)
  have co: "collapsed 4 3 (10, 0, 12, 3, 600)"
    unfolding collapsed_def cb by (simp add: box_width_def)
  from cut_sprites_collapsed_raises [of sheet1 _ 8 0 4 3 0, unfolded sz, OF co cb] cb
  show ?thesis by simp
qed

section \<open>Theorems\<close>

text \<open>
  C4. For all channel values, \<open>is_background_pixel\<close> with the default threshold 12 is
  true exactly when the average \<open>(r + g + b) / 3\<close> exceeds 225 and the spread between the
  largest and the smallest channel is strictly below 12. Over the integers the first
  condition is \<open>r + g + b > 675\<close>. The function is a total HOL function of its arguments
  alone.
\<close>

theorem is_background_pixel_iff:
  "is_background_pixel r g b 12 = spec_is_background r g b \<and>
   is_background_pixel r g b 12 =
     (675 < r + g + b \<and> max r (max g b) - min r (min g b) < 12)"
proof -
  have m: "Max {r, g, b} = max r (max g b)" "Min {r, g, b} = min r (min g b)"
    by simp_all
  have a: "((of_int (r + g + b) :: rat) / 3 > 225) = (675 < r + g + b)"
  proof -
    have "((of_int (r + g + b) :: rat) / 3 > 225) = ((of_int (r + g + b) :: rat) > of_int 675)"
      by (simp add: less_divide_eq)
    also have "\<dots> = (675 < r + g + b)"
      by (simp only: of_int_less_iff)
    finally show ?thesis .
  qed
  have s: "(of_int r + of_int g + of_int b :: rat) = of_int (r + g + b)"
    by simp
  show ?thesis
    unfolding is_background_pixel_def spec_is_background_def Let_def m s a by simp
qed

text \<open>
  C8. The artifact filter keeps a region of the merged list exactly when its pixel count
  is not less than or equal to 500, in the order of the list: a region with pixel count
  500 is dropped, one with 501 is kept.
\<close>

theorem artifact_filter_boundary:
  "set (artifact_filter rs) = {r. r \<in> set rs \<and> \<not> pixel_count r \<le> 500} \<and>
   artifact_filter rs = filter (\<lambda>r. \<not> pixel_count r \<le> 500) rs \<and>
   artifact_filter [(a, b, c, d, 500)] = [] \<and>
   artifact_filter [(a, b, c, d, 501)] = [(a, b, c, d, 501)]"
proof -
  have e: "(\<lambda>r. pixel_count r > 500) = (\<lambda>r. \<not> pixel_count r \<le> 500)"
    by (simp add: fun_eq_iff not_le)
  show ?thesis
    unfolding artifact_filter_def e by (auto simp: pixel_count_def)
qed

text \<open>
  C3. The merger reaches a fixpoint: merging its own output again, with the same gap,
  returns the output unchanged, and no two different regions of the output pass the
  expanded-bounds test of lines 120--121.
\<close>

theorem merge_fixpoint:
  "merge_close_regions (merge_close_regions rs gap) gap = merge_close_regions rs gap \<and>
   (\<forall>i j. i < length (merge_close_regions rs gap) \<and> j < length (merge_close_regions rs gap) \<and> i \<noteq> j
      \<longrightarrow> \<not> boxes_close gap (merge_close_regions rs gap ! i) (merge_close_regions rs gap ! j))"
proof (cases "rs = []")
  case True
  then show ?thesis by (simp add: merge_close_regions_def)
next
  case False
  let ?out = "merge_loop rs gap"
  have st: "merge_pass ?out gap = (?out, False)" by (rule merge_loop_stable)
  have o: "merge_close_regions rs gap = ?out" using False by (simp add: merge_close_regions_def)
  have "merge_loop ?out gap = ?out"
    using st by (subst merge_loop.simps) simp
  then have fx: "merge_close_regions ?out gap = ?out"
    by (simp add: merge_close_regions_def)
  have nc: "\<not> boxes_close gap (?out ! i) (?out ! j)"
    if "i < length ?out" "j < length ?out" "i \<noteq> j" for i j
  proof (cases "i < j")
    case True
    from merge_pass_facts(4) [OF st _ True that(2)] show ?thesis by simp
  next
    case False
    with that have "j < i" by simp
    from merge_pass_facts(4) [OF st _ this that(1)] show ?thesis
      by (simp add: boxes_close_sym)
  qed
  show ?thesis unfolding o using fx nc by blast
qed

theorem merge_fixpoint_witness:
  "merge_close_regions [(0, 0, 35, 35, 1200), (37, 0, 72, 35, 1100), (82, 0, 117, 35, 900)] 3 =
     [(0, 0, 72, 35, 2300), (82, 0, 117, 35, 900)] \<and>
   merge_close_regions [(0, 0, 72, 35, 2300), (82, 0, 117, 35, 900)] 3 =
     [(0, 0, 72, 35, 2300), (82, 0, 117, 35, 900)] \<and>
   \<not> boxes_close 3 (0, 0, 72, 35, 2300) (82, 0, 117, 35, 900)"
proof -
  let ?rs = "[(0, 0, 35, 35, 1200), (37, 0, 72, 35, 1100), (82, 0, 117, 35, 900)] :: region list"
  have e: "merge_close_regions ?rs 3 = [(0, 0, 72, 35, 2300), (82, 0, 117, 35, 900)]"
    by code_simp
  note m = merge_fixpoint [of ?rs 3, unfolded e]
  from m [THEN conjunct2, rule_format, of 0 1]
  have "\<not> boxes_close 3 (0, 0, 72, 35, 2300) (82, 0, 117, 35, 900)" by simp
  with e m [THEN conjunct1] show ?thesis by simp
qed

text \<open>
  C6. Every input region is assigned to one output region whose box contains it, each
  output region's pixel count is the sum of the pixel counts of the input regions
  assigned to it, and so the total pixel count of the output equals that of the input.
\<close>

theorem merge_pixel_count_sum:
  "(\<exists>f. grouping rs (merge_close_regions rs gap) f) \<and>
   total_pixels (merge_close_regions rs gap) = total_pixels rs"
proof (cases "rs = []")
  case True
  have "grouping [] [] (\<lambda>i. i)" by (rule grouping_id)
  with True show ?thesis by (auto simp: merge_close_regions_def)
next
  case False
  then show ?thesis
    using merge_loop_grouping [of rs gap] merge_loop_total [of rs gap]
    by (simp add: merge_close_regions_def)
qed

theorem merge_pixel_count_sum_witness:
  "merge_close_regions [(0, 0, 35, 35, 1200), (82, 0, 117, 35, 900), (37, 0, 72, 35, 1100)] 3 =
     [(0, 0, 72, 35, 2300), (82, 0, 117, 35, 900)] \<and>
   (\<exists>f. grouping [(0, 0, 35, 35, 1200), (82, 0, 117, 35, 900), (37, 0, 72, 35, 1100)]
          [(0, 0, 72, 35, 2300), (82, 0, 117, 35, 900)] f) \<and>
   total_pixels [(0, 0, 72, 35, 2300), (82, 0, 117, 35, 900)] = 3200"
proof -
  let ?rs = "[(0, 0, 35, 35, 1200), (82, 0, 117, 35, 900), (37, 0, 72, 35, 1100)] :: region list"
  have e: "merge_close_regions ?rs 3 = [(0, 0, 72, 35, 2300), (82, 0, 117, 35, 900)]"
    by code_simp
  have t: "total_pixels ?rs = 3200" by (simp add: total_pixels_def pixel_count_def)
  from merge_pixel_count_sum [of ?rs 3] show ?thesis
    unfolding e t by simp
qed

text \<open>
  C5. Started on an all-false mask of size \<open>w * h\<close>, the flood fill returns a mask of the
  same size that marks a pixel of the sheet exactly when it is reachable: it is
  background-like and joined to a background-like border pixel by a path of
  background-like pixels of the sheet in which consecutive pixels are 4-adjacent
  (one step up, down, left or right). A border pixel that fails the classifier is
  never marked.
\<close>

theorem flood_fill_background_reachable:
  "\<exists>mask. flood_fill_background img (replicate (size_w img * size_h img) False) = Some mask \<and>
      length mask = size_w img * size_h img \<and>
      (\<forall>p. in_range (size_w img) (size_h img) p \<longrightarrow>
         mask ! pixel_index (size_w img) p = reachable img p) \<and>
      (\<forall>p. in_range (size_w img) (size_h img) p \<and> on_border (size_w img) (size_h img) p \<and>
         \<not> background_at (pixels img) p \<longrightarrow> \<not> mask ! pixel_index (size_w img) p)"
proof -
  let ?w = "size_w img" and ?h = "size_h img"
  let ?v = "replicate (?w * ?h) False"
  let ?q = "edge_seeds ?w ?h"
  from flood_loop_total [of img ?v ?q] obtain mask where run: "flood_loop img ?q ?v = Some mask"
    by auto
  have len: "length mask = ?w * ?h" using flood_loop_length [OF run] by simp
  have nv: "\<not> ?v ! pixel_index ?w p" if "in_range ?w ?h p" for p
    using pixel_index_less [OF that] by simp
  have snd: "reachable img p" if "in_range ?w ?h p" "mask ! pixel_index ?w p" for p
  proof (rule flood_loop_sound [OF run _ _ that])
    fix p assume "in_range ?w ?h p" "?v ! pixel_index ?w p"
    with nv show "reachable img p" by blast
  next
    fix p assume "p \<in> set ?q" "in_range ?w ?h p" "background_at (pixels img) p"
    then show "reachable img p" using edge_seeds_sound reachable.seed by blast
  qed
  have "closed_under img ?q ?v"
    unfolding closed_under_def using nv edge_seeds_border by blast
  from flood_loop_closed [OF run this] have cl: "closed_under img [] mask" .
  have cmp: "mask ! pixel_index ?w p" if "reachable img p" for p
    using closed_reachable [OF cl that] .
  have iff: "mask ! pixel_index ?w p = reachable img p" if "in_range ?w ?h p" for p
    using snd [OF that] cmp by blast
  have brd: "\<not> mask ! pixel_index ?w p"
    if "in_range ?w ?h p" "\<not> background_at (pixels img) p" for p
    using snd [OF that(1)] reachable_background that(2) by blast
  from run len iff brd show ?thesis
    unfolding flood_fill_background_def by blast
qed

theorem flood_fill_background_reachable_witness:
  "flood_fill_background sheet4 (replicate 35 False) =
     Some [True, True, True, True, True, True, False,
           True, False, False, False, True, True, True,
           True, False, False, False, True, True, True,
           True, False, False, False, True, True, True,
           True, True, True, True, True, True, True] \<and>
   \<not> on_border 7 5 (4, 2) \<and> reachable sheet4 (4, 2) \<and>
   background_at (pixels sheet4) (2, 2) \<and> \<not> reachable sheet4 (2, 2) \<and>
   \<not> reachable sheet4 (1, 1) \<and>
   on_border 7 5 (6, 0) \<and> \<not> reachable sheet4 (6, 0)"
proof -
  let ?m = "[True, True, True, True, True, True, False,
           True, False, False, False, True, True, True,
           True, False, False, False, True, True, True,
           True, False, False, False, True, True, True,
           True, True, True, True, True, True, True]"
  have sz: "size_w sheet4 = 7" "size_h sheet4 = 5" by (simp_all add: sheet4_def)
  have e: "flood_fill_background sheet4 (replicate 35 False) = Some ?m"
    by code_simp
  from flood_fill_background_reachable [of sheet4] obtain mask where
    m: "flood_fill_background sheet4 (replicate (size_w sheet4 * size_h sheet4) False) = Some mask"
    and r: "\<forall>p. in_range (size_w sheet4) (size_h sheet4) p \<longrightarrow>
         mask ! pixel_index (size_w sheet4) p = reachable sheet4 p"
    by (elim exE conjE) (rule that)
  from m e have mk: "mask = ?m" by (simp add: sz)
  have i1: "in_range 7 5 (4, 2)" "in_range 7 5 (2, 2)" "in_range 7 5 (1, 1)" "in_range 7 5 (6, 0)"
    by (simp_all add: in_range_def)
  have x1: "pixel_index 7 (4, 2) = 18" "pixel_index 7 (2, 2) = 16" "pixel_index 7 (1, 1) = 8"
    "pixel_index 7 (6, 0) = 6"
    by (simp_all add: pixel_index_def)
  have "reachable sheet4 (4, 2)"
    using r [unfolded sz mk, rule_format, OF i1(1)] unfolding x1 by simp
  moreover have "\<not> reachable sheet4 (2, 2)"
    using r [unfolded sz mk, rule_format, OF i1(2)] unfolding x1 by simp
  moreover have "\<not> reachable sheet4 (1, 1)"
    using r [unfolded sz mk, rule_format, OF i1(3)] unfolding x1 by simp
  moreover have "\<not> reachable sheet4 (6, 0)"
    using r [unfolded sz mk, rule_format, OF i1(4)] unfolding x1 by simp
  moreover have "\<not> on_border 7 5 (4, 2)" "on_border 7 5 (6, 0)"
    by (simp_all add: on_border_def)
  moreover have "background_at (pixels sheet4) (2, 2)"
    by (simp add: background_at_def sheet4_def white_def is_background_pixel_def)
  ultimately show ?thesis using e by (intro conjI)
qed

text \<open>
  C9. The transparency pass returns an image of the same size in which a pixel marked
  by the border-seeded fill of that sprite has its alpha set to 0 and its R, G, B kept,
  and every other pixel is as it was. The marks are those of \<open>flood_fill_background\<close>
  on the sprite, from an all-false mask.
\<close>

theorem make_background_transparent_frame:
  "\<exists>out mask. make_background_transparent img = Some out \<and>
      flood_fill_background img (replicate (size_w img * size_h img) False) = Some mask \<and>
      size_w out = size_w img \<and> size_h out = size_h img \<and>
      (\<forall>p. pixels out p =
         (if in_range (size_w img) (size_h img) p \<and> mask ! pixel_index (size_w img) p
          then (case pixels img p of (r, g, b, a) \<Rightarrow> (r, g, b, 0)) else pixels img p))"
proof -
  let ?w = "size_w img" and ?h = "size_h img"
  let ?v = "replicate (?w * ?h) False"
  let ?q = "edge_seeds ?w ?h"
  from flood_loop_total [of img ?v ?q] obtain mask where fl: "flood_loop img ?q ?v = Some mask"
    by auto
  from transparent_loop_mask [of ?w img ?h "pixels img" ?q ?v] fl
  have "map_option fst (transparent_loop ?w ?h ?q ?v (pixels img)) = Some mask" by simp
  then obtain px' where tr: "transparent_loop ?w ?h ?q ?v (pixels img) = Some (mask, px')"
    by auto
  have nv: "\<not> ?v ! pixel_index ?w p" if "in_range ?w ?h p" for p
    using pixel_index_less [OF that] by simp
  from transparent_loop_frame [OF tr]
  have fr: "px' p = (if in_range ?w ?h p \<and> mask ! pixel_index ?w p \<and> \<not> ?v ! pixel_index ?w p
                        then set_alpha_zero (pixels img p) else pixels img p)" for p
    by blast
  have px: "px' p = (if in_range ?w ?h p \<and> mask ! pixel_index ?w p
          then (case pixels img p of (r, g, b, a) \<Rightarrow> (r, g, b, 0)) else pixels img p)" for p
    using fr [of p] nv [of p] by (auto simp: set_alpha_zero_def)
  have out: "make_background_transparent img = Some (img\<lparr>pixels := px'\<rparr>)"
    unfolding make_background_transparent_def Let_def tr by simp
  show ?thesis
    using out fl px unfolding flood_fill_background_def by simp
qed

theorem make_background_transparent_frame_witness:
  "\<exists>out. make_background_transparent sheet1 = Some out \<and>
      pixels out (0, 0) = (255, 255, 255, 0) \<and> pixels out (1, 1) = (0, 0, 255, 255) \<and>
      pixels out (3, 0) = (0, 0, 255, 255) \<and> pixels out (7, 7) = (255, 255, 255, 255)"
proof -
  have sz: "size_w sheet1 = 4" "size_h sheet1 = 3" by (simp_all add: sheet1_def)
  have e: "flood_fill_background sheet1 (replicate 12 False) =
     Some [True, True, True, False, True, False, False, True, True, True, True, True]"
    by code_simp
  from make_background_transparent_frame [of sheet1] obtain out mask where
    o: "make_background_transparent sheet1 = Some out"
    and m: "flood_fill_background sheet1 (replicate (size_w sheet1 * size_h sheet1) False) = Some mask"
    and p: "\<And>p. pixels out p =
         (if in_range (size_w sheet1) (size_h sheet1) p \<and> mask ! pixel_index (size_w sheet1) p
          then (case pixels sheet1 p of (r, g, b, a) \<Rightarrow> (r, g, b, 0)) else pixels sheet1 p)"
    by blast
  from m e have mk: "mask = [True, True, True, False, True, False, False, True, True, True, True, True]"
    by (simp add: sz)
  have "pixels out (0, 0) = (255, 255, 255, 0)"
    unfolding p mk sz by (simp add: in_range_def pixel_index_def sheet1_def white_def)
  moreover have "pixels out (1, 1) = (0, 0, 255, 255)"
    unfolding p mk sz by (simp add: in_range_def pixel_index_def sheet1_def blue_def)
  moreover have "pixels out (3, 0) = (0, 0, 255, 255)"
    unfolding p mk sz by (simp add: in_range_def pixel_index_def sheet1_def blue_def)
  moreover have "pixels out (7, 7) = (255, 255, 255, 255)"
    unfolding p mk sz by (simp add: in_range_def pixel_index_def sheet1_def white_def)
  ultimately show ?thesis using o by blast
qed




text \<open>
  C7. On a mask of size \<open>w * h\<close> the extractor returns, in discovery order, the regions
  of exactly those collected components whose bounding-box width and height are both
  at least \<open>min_size\<close>. Each collected component has its pixel count, lies in its bounds
  and touches all four of them; one with a 20 by 20 box is dropped at \<open>min_size = 30\<close>;
  and no pixel of a component, kept or dropped, belongs to another component.
\<close>

theorem find_sprite_regions_keeps:
  assumes "length visited = w * h"
  shows "\<exists>comps regions.
      collected_components visited w h = Some comps \<and>
      find_sprite_regions visited w h min_size = Some regions \<and>
      regions = map to_region
        (filter (\<lambda>(min_x, min_y, max_x, max_y, n).
                   min_size \<le> max_x - min_x + 1 \<and> min_size \<le> max_y - min_y + 1)
           (map fst comps)) \<and>
      (\<forall>k<length comps.
         good_component w h (comps ! k) \<and>
         (to_region (fst (comps ! k)) \<in> set regions) =
           (case fst (comps ! k) of (min_x, min_y, max_x, max_y, n) \<Rightarrow>
              min_size \<le> max_x - min_x + 1 \<and> min_size \<le> max_y - min_y + 1) \<and>
         (\<forall>x y n. min_size = 30 \<and> fst (comps ! k) = (x, y, x + 19, y + 19, n) \<longrightarrow>
            to_region (fst (comps ! k)) \<notin> set regions) \<and>
         (\<forall>k' i. k' < length comps \<and> i \<in> set (snd (comps ! k)) \<and> i \<in> set (snd (comps ! k'))
            \<longrightarrow> k' = k))"
proof -
  from collected_components_inv [OF assms] obtain comps rv where
    cc: "collected_components visited w h = Some comps"
    and inv: "comp_inv visited w h comps rv"
    by blast
  from inv have iB: "\<And>i. i < w * h \<Longrightarrow> rv ! i \<Longrightarrow> \<exists>!k. k < length comps \<and> i \<in> set (snd (comps ! k))"
    and iC: "\<And>k i. k < length comps \<Longrightarrow> i \<in> set (snd (comps ! k)) \<Longrightarrow> i < w * h \<and> rv ! i"
    and iD: "\<And>k. k < length comps \<Longrightarrow> good_component w h (comps ! k)"
    unfolding comp_inv_def by blast+
  define P where "P = (\<lambda>b :: bounds. case b of (min_x, min_y, max_x, max_y, n) \<Rightarrow>
                   min_size \<le> max_x - min_x + 1 \<and> min_size \<le> max_y - min_y + 1)"
  have kp: "keeps min_size = P"
    unfolding P_def by (rule ext) (rule keeps_iff)
  define regions where "regions = map to_region (filter P (map fst comps))"
  have fr: "find_sprite_regions visited w h min_size = Some regions"
    unfolding find_sprite_regions_collected cc proj_regions_def kp regions_def by simp
  have mem: "(to_region (fst (comps ! k)) \<in> set regions) = P (fst (comps ! k))"
    if "k < length comps" for k
  proof
    assume "to_region (fst (comps ! k)) \<in> set regions"
    then have "to_region (fst (comps ! k)) \<in> to_region ` set (filter P (map fst comps))"
      unfolding regions_def by simp
    then obtain b where b: "b \<in> set (filter P (map fst comps))"
      "to_region (fst (comps ! k)) = to_region b" by (rule imageE)
    from to_region_inj [OF b(2)] b(1) show "P (fst (comps ! k))" by simp
  next
    assume p: "P (fst (comps ! k))"
    have "comps ! k \<in> set comps" using that by simp
    then have "fst (comps ! k) \<in> set (map fst comps)" by simp
    with p have "fst (comps ! k) \<in> set (filter P (map fst comps))" by simp
    then show "to_region (fst (comps ! k)) \<in> set regions" unfolding regions_def by simp
  qed
  have small: "to_region (fst (comps ! k)) \<notin> set regions"
    if "k < length comps" "min_size = 30 \<and> fst (comps ! k) = (x, y, x + 19, y + 19, n)" for k x y n
  proof -
    have "\<not> P (x, y, x + 19, y + 19, n)" unfolding P_def using that(2) by simp
    then show ?thesis unfolding mem [OF that(1)] using that(2) by simp
  qed
  have uniq: "k' = k"
    if "k < length comps" "k' < length comps \<and> i \<in> set (snd (comps ! k)) \<and> i \<in> set (snd (comps ! k'))"
    for k k' i
  proof -
    from that have a: "k' < length comps" "i \<in> set (snd (comps ! k))" "i \<in> set (snd (comps ! k'))"
      by simp_all
    from iC [OF that(1) a(2)] have "i < w * h" "rv ! i" by simp_all
    from iB [OF this] obtain k0 where
      u: "\<And>j. j < length comps \<and> i \<in> set (snd (comps ! j)) \<Longrightarrow> j = k0"
      by blast
    from u [of k] u [of k'] that(1) a show ?thesis by simp
  qed
  have all: "\<forall>k<length comps. good_component w h (comps ! k) \<and>
         (to_region (fst (comps ! k)) \<in> set regions) = P (fst (comps ! k)) \<and>
         (\<forall>x y n. min_size = 30 \<and> fst (comps ! k) = (x, y, x + 19, y + 19, n) \<longrightarrow>
            to_region (fst (comps ! k)) \<notin> set regions) \<and>
         (\<forall>k' i. k' < length comps \<and> i \<in> set (snd (comps ! k)) \<and> i \<in> set (snd (comps ! k'))
            \<longrightarrow> k' = k)"
  proof (intro allI impI conjI)
    fix k assume k: "k < length comps"
    show "good_component w h (comps ! k)" by (rule iD [OF k])
    show "(to_region (fst (comps ! k)) \<in> set regions) = P (fst (comps ! k))" by (rule mem [OF k])
    show "to_region (fst (comps ! k)) \<notin> set regions"
      if "min_size = 30 \<and> fst (comps ! k) = (x, y, x + 19, y + 19, n)" for x y n
      by (rule small [OF k that])
    show "k' = k"
      if "k' < length comps \<and> i \<in> set (snd (comps ! k)) \<and> i \<in> set (snd (comps ! k'))" for k' i
      by (rule uniq [OF k that])
  qed
  have "collected_components visited w h = Some comps \<and>
      find_sprite_regions visited w h min_size = Some regions \<and>
      regions = map to_region (filter P (map fst comps)) \<and>
      (\<forall>k<length comps. good_component w h (comps ! k) \<and>
         (to_region (fst (comps ! k)) \<in> set regions) = P (fst (comps ! k)) \<and>
         (\<forall>x y n. min_size = 30 \<and> fst (comps ! k) = (x, y, x + 19, y + 19, n) \<longrightarrow>
            to_region (fst (comps ! k)) \<notin> set regions) \<and>
         (\<forall>k' i. k' < length comps \<and> i \<in> set (snd (comps ! k)) \<and> i \<in> set (snd (comps ! k'))
            \<longrightarrow> k' = k))"
    using cc fr regions_def all by (intro conjI)
  then show ?thesis unfolding P_def by (intro exI)
qed

theorem find_sprite_regions_keeps_witness:
  "collected_components
     [True, True, True, True, False, True, False, False, True, True,
      True, False, False, True, True, True, True, True, True, True] 5 4 =
     Some [((4, 0, 4, 0, 1), [4]), ((1, 1, 2, 2, 4), [6, 7, 11, 12])] \<and>
   find_sprite_regions
     [True, True, True, True, False, True, False, False, True, True,
      True, False, False, True, True, True, True, True, True, True] 5 4 2 =
     Some [(1, 1, 3, 3, 4)] \<and>
   good_component 5 4 ((1, 1, 2, 2, 4), [6, 7, 11, 12]) \<and>
   to_region (4, 0, 4, 0, 1) \<notin> set [(1, 1, 3, 3, 4)]"
proof -
  let ?m = "[True, True, True, True, False, True, False, False, True, True,
           True, False, False, True, True, True, True, True, True, True]"
  let ?c = "[((4, 0, 4, 0, 1), [4]), ((1, 1, 2, 2, 4), [6, 7, 11, 12])] :: component list"
  have l: "length ?m = 5 * 4" by simp
  have f: "collected_components ?m 5 4 = Some ?c"
    by code_simp
  have g: "find_sprite_regions ?m 5 4 2 = Some [(1, 1, 3, 3, 4)]"
    by code_simp
  from find_sprite_regions_keeps [OF l, of 2] obtain comps regions where
    c: "collected_components ?m 5 4 = Some comps"
    and r: "find_sprite_regions ?m 5 4 2 = Some regions"
    and e: "regions = map to_region
        (filter (\<lambda>(min_x, min_y, max_x, max_y, n).
                   2 \<le> max_x - min_x + 1 \<and> 2 \<le> max_y - min_y + 1)
           (map fst comps))"
    and a: "\<forall>k<length comps.
         good_component 5 4 (comps ! k) \<and>
         (to_region (fst (comps ! k)) \<in> set regions) =
           (case fst (comps ! k) of (min_x, min_y, max_x, max_y, n) \<Rightarrow>
              2 \<le> max_x - min_x + 1 \<and> 2 \<le> max_y - min_y + 1) \<and>
         (\<forall>x y n. (2 :: int) = 30 \<and> fst (comps ! k) = (x, y, x + 19, y + 19, n) \<longrightarrow>
            to_region (fst (comps ! k)) \<notin> set regions) \<and>
         (\<forall>k' i. k' < length comps \<and> i \<in> set (snd (comps ! k)) \<and> i \<in> set (snd (comps ! k'))
            \<longrightarrow> k' = k)"
    by (elim exE conjE) (rule that)
  from c f have ck: "comps = ?c" by simp
  from r g have rk: "regions = [(1, 1, 3, 3, 4)]" by simp
  have k1: "1 < length comps" and k0: "0 < length comps" unfolding ck by simp_all
  from a [rule_format, OF k1, THEN conjunct1]
  have "good_component 5 4 ((1, 1, 2, 2, 4), [6, 7, 11, 12])"
    unfolding ck by simp
  moreover from a [rule_format, OF k0, THEN conjunct2, THEN conjunct1]
  have "to_region (4, 0, 4, 0, 1) \<notin> set [(1, 1, 3, 3, 4)]"
    unfolding ck rk by simp
  ultimately show ?thesis using f g by (intro conjI)
qed



text \<open>
  C10. Every region that extraction and merging produce from a mask of the sheet's size
  is well-formed, \<open>0 \<le> min_x < max_x_exclusive \<le> w\<close> and
  \<open>0 \<le> min_y < max_y_exclusive \<le> h\<close>, so its crop box after the padding of 2 and the
  clamp has strictly positive width and height; the artifact filter and the sort only
  select and reorder these regions.
\<close>

theorem pipeline_crop_box_positive:
  assumes "length visited = w * h"
    and "find_sprite_regions visited w h min_size = Some regions"
    and "r \<in> set (merge_close_regions regions gap)"
  shows "well_formed w h r \<and>
         0 < box_width (crop_box w h r) \<and> 0 < box_height (crop_box w h r) \<and>
         set (sort_regions (artifact_filter (merge_close_regions regions gap)))
           \<subseteq> set (merge_close_regions regions gap)"
proof -
  have "\<forall>r\<in>set (merge_close_regions regions gap). well_formed w h r"
    by (rule merge_close_regions_pres [where P = "well_formed w h"])
      (erule well_formed_absorb, assumption,
       erule find_sprite_regions_well_formed [OF assms(1,2)])
  with assms(3) have "well_formed w h r" by blast
  with crop_box_well_formed [of w h r] sort_filter_subset show ?thesis by blast
qed

theorem pipeline_crop_box_positive_witness:
  "find_sprite_regions
     [True, True, True, True, False, True, False, False, True, True,
      True, False, False, True, True, True, True, True, True, True] 5 4 2 =
     Some [(1, 1, 3, 3, 4)] \<and>
   merge_close_regions [(1, 1, 3, 3, 4)] 3 = [(1, 1, 3, 3, 4)] \<and>
   well_formed 5 4 (1, 1, 3, 3, 4) \<and>
   crop_box 5 4 (1, 1, 3, 3, 4) = (0, 0, 5, 4) \<and>
   0 < box_width (crop_box 5 4 (1, 1, 3, 3, 4)) \<and>
   0 < box_height (crop_box 5 4 (1, 1, 3, 3, 4))"
proof -
  let ?m = "[True, True, True, True, False, True, False, False, True, True,
           True, False, False, True, True, True, True, True, True, True]"
  have l: "length ?m = 5 * 4" by simp
  have g: "find_sprite_regions ?m 5 4 2 = Some [(1, 1, 3, 3, 4)]"
    by code_simp
  have m: "merge_close_regions [(1, 1, 3, 3, 4)] 3 = [(1, 1, 3, 3, 4)]"
    by code_simp
  have r: "(1, 1, 3, 3, 4) \<in> set (merge_close_regions [(1, 1, 3, 3, 4)] 3)"
    unfolding m by simp
  have c: "crop_box 5 4 (1, 1, 3, 3, 4) = (0, 0, 5, 4)"
    by (simp add: crop_box_def)
  from pipeline_crop_box_positive [OF l g r] g m c show ?thesis by simp
qed


end
